theory Spec2Isabelle
  imports Main
begin

section \<open>The splay tree of task_2.py\<close>

subsection \<open>Objects and the store\<close>

text \<open>
  A Python \<^verbatim>\<open>Node\<close> object is a record of its five attributes. A reference to a node is
  an address (a natural number), and a reference that may be \<^verbatim>\<open>None\<close> is an
  \<open>nat option\<close>. The objects live in a store \<open>nodes\<close> that maps every address to the
  attributes held there; \<open>fresh\<close> is the next unused address, so that \<^verbatim>\<open>Node(key, val)\<close>
  always yields an object distinct from all earlier ones. Keys and values are Python
  integers, which are unbounded.
\<close>

record node =
  key :: int
  val :: int
  left :: "nat option"
  right :: "nat option"
  parent :: "nat option"

record splay_tree =
  root :: "nat option"
  nodes :: "nat \<Rightarrow> node"
  fresh :: nat

datatype error = AttributeError

definition set_left :: "nat \<Rightarrow> nat option \<Rightarrow> splay_tree \<Rightarrow> splay_tree" where
  "set_left a p s = s\<lparr>nodes := (nodes s)(a := (nodes s a)\<lparr>left := p\<rparr>)\<rparr>"

definition set_right :: "nat \<Rightarrow> nat option \<Rightarrow> splay_tree \<Rightarrow> splay_tree" where
  "set_right a p s = s\<lparr>nodes := (nodes s)(a := (nodes s a)\<lparr>right := p\<rparr>)\<rparr>"

definition set_parent :: "nat \<Rightarrow> nat option \<Rightarrow> splay_tree \<Rightarrow> splay_tree" where
  "set_parent a p s = s\<lparr>nodes := (nodes s)(a := (nodes s a)\<lparr>parent := p\<rparr>)\<rparr>"

definition set_val :: "nat \<Rightarrow> int \<Rightarrow> splay_tree \<Rightarrow> splay_tree" where
  "set_val a v s = s\<lparr>nodes := (nodes s)(a := (nodes s a)\<lparr>val := v\<rparr>)\<rparr>"

text \<open>\<^verbatim>\<open>Node.__init__\<close>: a new object with the given key and value and no links.\<close>

definition Node_init :: "int \<Rightarrow> int \<Rightarrow> splay_tree \<Rightarrow> nat \<times> splay_tree" where
  "Node_init k v s =
     (fresh s,
      s\<lparr>nodes := (nodes s)(fresh s :=
           \<lparr>key = k, val = v, left = None, right = None, parent = None\<rparr>),
        fresh := Suc (fresh s)\<rparr>)"

subsection \<open>Rotation and splaying\<close>

text \<open>
  \<^verbatim>\<open>SplayTree._rotate\<close>. The statement \<^verbatim>\<open>p.left = b = x.right\<close> reads \<^verbatim>\<open>x.right\<close> first and
  then assigns both targets. Every later read is made in the store as the earlier
  assignments have left it, as the source does.
\<close>

definition rotate_node :: "nat \<Rightarrow> splay_tree \<Rightarrow> splay_tree" where
  "rotate_node x s =
     (case parent (nodes s x) of
        None \<Rightarrow> s
      | Some p \<Rightarrow>
          let g = parent (nodes s p);
              b = (if left (nodes s p) = Some x then right (nodes s x) else left (nodes s x));
              s1 = (if left (nodes s p) = Some x
                    then set_right x (Some p) (set_left p b s)
                    else set_left x (Some p) (set_right p b s));
              s2 = (case b of None \<Rightarrow> s1 | Some c \<Rightarrow> set_parent c (Some p) s1);
              s3 = set_parent x g s2;
              s4 = set_parent p (Some x) s3
          in (case g of
                Some h \<Rightarrow>
                  if left (nodes s4 h) = Some p then set_left h (Some x) s4
                  else set_right h (Some x) s4
              | None \<Rightarrow> s4\<lparr>root := Some x\<rparr>))"

text \<open>The body of the loop of \<^verbatim>\<open>SplayTree._splay\<close>, run when \<^verbatim>\<open>x.parent\<close> is a node.\<close>

definition splay_step :: "nat \<Rightarrow> splay_tree \<Rightarrow> splay_tree" where
  "splay_step x s =
     (case parent (nodes s x) of
        None \<Rightarrow> s
      | Some p \<Rightarrow>
          (case parent (nodes s p) of
             None \<Rightarrow> rotate_node x s
           | Some g \<Rightarrow>
               if (left (nodes s p) = Some x) = (left (nodes s g) = Some p)
               then rotate_node x (rotate_node p s)
               else rotate_node x (rotate_node x s)))"

text \<open>
  \<^verbatim>\<open>SplayTree._splay\<close>: the loop runs while \<^verbatim>\<open>x.parent\<close> is a node. On a store with a
  cycle of parent links it need not end, so the result is an option and \<open>None\<close> stands
  for a loop that never returns.
\<close>

partial_function (option) splay :: "nat \<Rightarrow> splay_tree \<Rightarrow> splay_tree option" where
  "splay x s = (if parent (nodes s x) = None then Some s else splay x (splay_step x s))"

subsection \<open>Insertion and search\<close>

text \<open>
  The loop of \<^verbatim>\<open>SplayTree.insert\<close> with its two variables \<^verbatim>\<open>node\<close> and \<^verbatim>\<open>parent\<close>, and the
  code after it. Reading \<^verbatim>\<open>parent.key\<close> while \<^verbatim>\<open>parent\<close> is \<^verbatim>\<open>None\<close> raises.
\<close>

partial_function (option) insert_loop ::
  "int \<Rightarrow> int \<Rightarrow> nat option \<Rightarrow> nat option \<Rightarrow> splay_tree \<Rightarrow> (error + splay_tree) option" where
  "insert_loop k v nd par s =
     (case nd of
        Some n \<Rightarrow>
          if k < key (nodes s n) then insert_loop k v (left (nodes s n)) (Some n) s
          else if k > key (nodes s n) then insert_loop k v (right (nodes s n)) (Some n) s
          else map_option Inr (splay n (set_val n v s))
      | None \<Rightarrow>
          (case par of
             None \<Rightarrow> Some (Inl AttributeError)
           | Some p \<Rightarrow>
               let (a, s1) = Node_init k v s;
                   s2 = set_parent a (Some p) s1;
                   s3 = (if k < key (nodes s2 p) then set_left p (Some a) s2
                         else set_right p (Some a) s2)
               in map_option Inr (splay a s3)))"

definition insert_tree :: "int \<Rightarrow> int \<Rightarrow> splay_tree \<Rightarrow> (error + splay_tree) option" where
  "insert_tree k v s =
     (if root s = None
      then (let (a, s1) = Node_init k v s in Some (Inr (s1\<lparr>root := Some a\<rparr>)))
      else insert_loop k v (root s) None s)"

text \<open>
  \<^verbatim>\<open>SplayTree.search\<close>: the loop with its variables \<^verbatim>\<open>node\<close> and \<^verbatim>\<open>last\<close>. The result is
  the node returned (\<open>None\<close> for Python's \<^verbatim>\<open>None\<close>) and the tree as the call leaves it.
\<close>

partial_function (option) search_loop ::
  "int \<Rightarrow> nat option \<Rightarrow> nat option \<Rightarrow> splay_tree \<Rightarrow> (nat option \<times> splay_tree) option" where
  "search_loop k nd lastn s =
     (case nd of
        Some n \<Rightarrow>
          if k < key (nodes s n) then search_loop k (left (nodes s n)) (Some n) s
          else if k > key (nodes s n) then search_loop k (right (nodes s n)) (Some n) s
          else map_option (Pair (Some n)) (splay n s)
      | None \<Rightarrow>
          (case lastn of
             Some l \<Rightarrow> map_option (Pair None) (splay l s)
           | None \<Rightarrow> Some (None, s)))"

definition search :: "int \<Rightarrow> splay_tree \<Rightarrow> (nat option \<times> splay_tree) option" where
  "search k s = search_loop k (root s) None s"

text \<open>
  \<^verbatim>\<open>SplayTree.__init__\<close>: an object with no root, into which the keys 0 and 1 are inserted.
\<close>

definition empty_tree :: splay_tree where
  "empty_tree =
     \<lparr>root = None,
      nodes = (\<lambda>_. \<lparr>key = 0, val = 0, left = None, right = None, parent = None\<rparr>),
      fresh = 0\<rparr>"

definition then_insert ::
  "int \<Rightarrow> int \<Rightarrow> (error + splay_tree) option \<Rightarrow> (error + splay_tree) option" where
  "then_insert k v r =
     (case r of None \<Rightarrow> None | Some (Inl e) \<Rightarrow> Some (Inl e) | Some (Inr s) \<Rightarrow> insert_tree k v s)"

definition SplayTree_init :: "(error + splay_tree) option" where
  "SplayTree_init = then_insert 1 1 (insert_tree 0 0 empty_tree)"

text \<open>
  \<^verbatim>\<open>fibonacci_splay\<close>. The second recursive call runs on the tree as the first one has left
  it. Python's limit on the depth of recursion is not modelled.
\<close>

function fibonacci_splay :: "int \<Rightarrow> splay_tree \<Rightarrow> (error + int \<times> splay_tree) option" where
  "fibonacci_splay n tree =
     (if n < 2 then Some (Inr (n, tree))
      else
        (case search n tree of
           None \<Rightarrow> None
         | Some (Some nd, t1) \<Rightarrow> Some (Inr (val (nodes t1 nd), t1))
         | Some (None, t1) \<Rightarrow>
             (case fibonacci_splay (n - 1) t1 of
                None \<Rightarrow> None
              | Some (Inl e) \<Rightarrow> Some (Inl e)
              | Some (Inr (a, t2)) \<Rightarrow>
                  (case fibonacci_splay (n - 2) t2 of
                     None \<Rightarrow> None
                   | Some (Inl e) \<Rightarrow> Some (Inl e)
                   | Some (Inr (b, t3)) \<Rightarrow>
                       (case insert_tree n (a + b) t3 of
                          None \<Rightarrow> None
                        | Some (Inl e) \<Rightarrow> Some (Inl e)
                        | Some (Inr t4) \<Rightarrow> Some (Inr (a + b, t4)))))))"
  by pat_completeness auto
termination
  by (relation "measure (\<lambda>(n, tree). nat n)") auto

subsection \<open>The tree that a store holds\<close>

text \<open>
  The shape of a tree of node objects: which address sits where. Keys, values and links
  stay in the store; \<open>shaped h par t\<close> says that the links of the store \<open>h\<close> are exactly
  those of the shape \<open>t\<close> hanging below the parent reference \<open>par\<close>.
\<close>

datatype shape = Tip | Fork shape nat shape

fun top_of :: "shape \<Rightarrow> nat option" where
  "top_of Tip = None"
| "top_of (Fork l a r) = Some a"

fun inorder :: "shape \<Rightarrow> nat list" where
  "inorder Tip = []"
| "inorder (Fork l a r) = inorder l @ a # inorder r"

fun shaped :: "(nat \<Rightarrow> node) \<Rightarrow> nat option \<Rightarrow> shape \<Rightarrow> bool" where
  "shaped h par Tip = True"
| "shaped h par (Fork l a r) =
     (parent (h a) = par \<and> left (h a) = top_of l \<and> right (h a) = top_of r \<and>
      shaped h (Some a) l \<and> shaped h (Some a) r)"

text \<open>
  A tree object is well formed with shape \<open>t\<close> when its root reference is the top of \<open>t\<close>,
  the links of its nodes are those of \<open>t\<close> (the root having no parent), no object occurs
  twice, and every object has been allocated.
\<close>

definition tree_shape :: "splay_tree \<Rightarrow> shape \<Rightarrow> bool" where
  "tree_shape s t =
     (root s = top_of t \<and> shaped (nodes s) None t \<and> distinct (inorder t) \<and>
      list_all (\<lambda>a. a < fresh s) (inorder t))"

text \<open>The keys of a tree in symmetric order, and the key-value pairs it stores.\<close>

definition keys_of :: "splay_tree \<Rightarrow> shape \<Rightarrow> int list" where
  "keys_of s t = map (\<lambda>a. key (nodes s a)) (inorder t)"

definition items_of :: "splay_tree \<Rightarrow> shape \<Rightarrow> (int \<times> int) list" where
  "items_of s t = map (\<lambda>a. (key (nodes s a), val (nodes s a))) (inorder t)"

text \<open>
  The ordering invariant, node by node: every key in the left subtree is strictly less
  and every key in the right subtree strictly greater than the key of the node.
\<close>

fun bst_keys :: "(nat \<Rightarrow> node) \<Rightarrow> shape \<Rightarrow> bool" where
  "bst_keys h Tip = True"
| "bst_keys h (Fork l a r) =
     (list_all (\<lambda>b. key (h b) < key (h a)) (inorder l) \<and>
      list_all (\<lambda>b. key (h a) < key (h b)) (inorder r) \<and>
      bst_keys h l \<and> bst_keys h r)"

text \<open>
  Parent consistency of one node \<open>a\<close>: the root has no parent, and any other node is
  the left or the right child of its parent, not both.
\<close>

definition parent_ok :: "splay_tree \<Rightarrow> nat \<Rightarrow> bool" where
  "parent_ok s a =
     (if root s = Some a then parent (nodes s a) = None
      else (case parent (nodes s a) of
              None \<Rightarrow> False
            | Some p \<Rightarrow> (left (nodes s p) = Some a) \<noteq> (right (nodes s p) = Some a)))"

definition child_ok :: "splay_tree \<Rightarrow> nat \<Rightarrow> bool" where
  "child_ok s a =
     ((case left (nodes s a) of None \<Rightarrow> True | Some c \<Rightarrow> parent (nodes s c) = Some a) \<and>
      (case right (nodes s a) of None \<Rightarrow> True | Some c \<Rightarrow> parent (nodes s c) = Some a))"

text \<open>
  Two readings of the store that follow its links: the keys met by a traversal in
  symmetric order from a reference, and the number of parent links above a node. Both
  are undefined (\<open>None\<close>) where the links never end.
\<close>

partial_function (option) traverse :: "(nat \<Rightarrow> node) \<Rightarrow> nat option \<Rightarrow> (int \<times> int) list option" where
  "traverse h p =
     (case p of
        None \<Rightarrow> Some []
      | Some a \<Rightarrow>
          Option.bind (traverse h (left (h a))) (\<lambda>ls.
          Option.bind (traverse h (right (h a))) (\<lambda>rs.
          Some (ls @ (key (h a), val (h a)) # rs))))"

partial_function (option) depth :: "(nat \<Rightarrow> node) \<Rightarrow> nat \<Rightarrow> nat option" where
  "depth h x =
     (case parent (h x) of
        None \<Rightarrow> Some 0
      | Some p \<Rightarrow> Option.bind (depth h p) (\<lambda>d. Some (Suc d)))"

text \<open>
  What a caller observes of a tree: the key at its root and the key-value pairs met by
  an in-order traversal. \<open>result_tree\<close> is the tree that a call has returned.
\<close>

definition root_key :: "splay_tree \<Rightarrow> int option" where
  "root_key s = map_option (\<lambda>a. key (nodes s a)) (root s)"

definition contents :: "splay_tree \<Rightarrow> (int \<times> int) list option" where
  "contents s = traverse (nodes s) (root s)"

definition result_tree :: "(error + splay_tree) option \<Rightarrow> splay_tree" where
  "result_tree r = (case r of Some (Inr s) \<Rightarrow> s | _ \<Rightarrow> empty_tree)"

text \<open>The loops are run by their defining equations.\<close>

declare splay.simps [code]
declare insert_loop.simps [code]
declare search_loop.simps [code]
declare traverse.simps [code]
declare depth.simps [code]

subsection \<open>A position in a tree\<close>

text \<open>
  The way from a subtree up to the root, innermost step first. \<open>InLeft p sib\<close> says that
  the subtree is the left child of \<open>p\<close>, whose right subtree is \<open>sib\<close>.
\<close>

datatype frame = InLeft nat shape | InRight nat shape

fun fill1 :: "frame \<Rightarrow> shape \<Rightarrow> shape" where
  "fill1 (InLeft p sib) t = Fork t p sib"
| "fill1 (InRight p sib) t = Fork sib p t"

fun plug :: "frame list \<Rightarrow> shape \<Rightarrow> shape" where
  "plug [] t = t"
| "plug (f # c) t = plug c (fill1 f t)"

text \<open>The shape after rotating the top of a subtree above its parent.\<close>

fun rot :: "frame \<Rightarrow> shape \<Rightarrow> shape" where
  "rot (InLeft p sib) (Fork l x r) = Fork l x (Fork r p sib)"
| "rot (InRight p sib) (Fork l x r) = Fork (Fork sib p l) x r"
| "rot f Tip = fill1 f Tip"

fun same_side :: "frame \<Rightarrow> frame \<Rightarrow> bool" where
  "same_side (InLeft _ _) (InLeft _ _) = True"
| "same_side (InRight _ _) (InRight _ _) = True"
| "same_side _ _ = False"

text \<open>
  Where a node stands once its parent (step \<open>f\<close>) has been rotated above its
  grandparent (step \<open>g\<close>) on the same side.
\<close>

fun lift :: "frame \<Rightarrow> frame \<Rightarrow> frame" where
  "lift (InLeft p s1) (InLeft g s2) = InLeft p (Fork s1 g s2)"
| "lift (InRight p s1) (InRight g s2) = InRight p (Fork s2 g s1)"
| "lift f g = f"

text \<open>One round of splaying, on shapes: zig, zig-zig (the parent first) or zig-zag.\<close>

fun step_shape :: "frame list \<Rightarrow> shape \<Rightarrow> frame list \<times> shape" where
  "step_shape [] t = ([], t)"
| "step_shape [f] t = ([], rot f t)"
| "step_shape (f # g # c) t =
     (if same_side f g then (c, rot (lift f g) t) else (c, rot g (rot f t)))"

fun f_addr :: "frame \<Rightarrow> nat" where
  "f_addr (InLeft p _) = p"
| "f_addr (InRight p _) = p"

fun ctx_top :: "frame list \<Rightarrow> nat option" where
  "ctx_top [] = None"
| "ctx_top (f # c) = Some (f_addr f)"

text \<open>The nodes that come before and after a position in symmetric order.\<close>

fun before :: "frame list \<Rightarrow> nat list" where
  "before [] = []"
| "before (InLeft p sib # c) = before c"
| "before (InRight p sib # c) = before c @ inorder sib @ [p]"

fun after :: "frame list \<Rightarrow> nat list" where
  "after [] = []"
| "after (InLeft p sib # c) = p # inorder sib @ after c"
| "after (InRight p sib # c) = after c"

text \<open>The links of the store along the way up, \<open>hp\<close> being the reference held at the position.\<close>

fun shaped_ctx :: "(nat \<Rightarrow> node) \<Rightarrow> frame list \<Rightarrow> nat option \<Rightarrow> bool" where
  "shaped_ctx h [] hp = True"
| "shaped_ctx h (InLeft p sib # c) hp =
     (parent (h p) = ctx_top c \<and> left (h p) = hp \<and> right (h p) = top_of sib \<and>
      shaped h (Some p) sib \<and> shaped_ctx h c (Some p))"
| "shaped_ctx h (InRight p sib # c) hp =
     (parent (h p) = ctx_top c \<and> left (h p) = top_of sib \<and> right (h p) = hp \<and>
      shaped h (Some p) sib \<and> shaped_ctx h c (Some p))"

text \<open>
  The way the loops of \<^verbatim>\<open>insert\<close> and \<^verbatim>\<open>search\<close> walk down from a position: to the node
  that holds the key, or to the empty place where the key would be.
\<close>

fun descend :: "(nat \<Rightarrow> node) \<Rightarrow> int \<Rightarrow> frame list \<Rightarrow> shape \<Rightarrow> frame list \<times> shape" where
  "descend h k c Tip = (c, Tip)"
| "descend h k c (Fork l a r) =
     (if k < key (h a) then descend h k (InLeft a r # c) l
      else if k > key (h a) then descend h k (InRight a l # c) r
      else (c, Fork l a r))"

text \<open>The node at which the walk for a key ends without having found it.\<close>

definition last_visited :: "(nat \<Rightarrow> node) \<Rightarrow> int \<Rightarrow> shape \<Rightarrow> nat option" where
  "last_visited h k t = ctx_top (fst (descend h k [] t))"

fun path_ok :: "(nat \<Rightarrow> node) \<Rightarrow> int \<Rightarrow> frame list \<Rightarrow> bool" where
  "path_ok h k [] = True"
| "path_ok h k (InLeft p sib # c) = (k < key (h p) \<and> path_ok h k c)"
| "path_ok h k (InRight p sib # c) = (key (h p) < k \<and> path_ok h k c)"

text \<open>
  What the loops do once the walk has ended: \<open>search_end\<close> and \<open>insert_end\<close> are the code
  of \<^verbatim>\<open>search\<close> and \<^verbatim>\<open>insert\<close> at the end of the walk, and \<open>attach\<close> is the creation of
  the new node below its parent \<open>p\<close> in \<^verbatim>\<open>insert\<close>.
\<close>

definition search_end :: "int \<Rightarrow> splay_tree \<Rightarrow> frame list \<times> shape \<Rightarrow> (nat option \<times> splay_tree) option" where
  "search_end k s r =
     (case snd r of
        Fork l a r' \<Rightarrow> map_option (Pair (Some a)) (splay a s)
      | Tip \<Rightarrow> (case ctx_top (fst r) of
                  Some l \<Rightarrow> map_option (Pair None) (splay l s)
                | None \<Rightarrow> Some (None, s)))"

definition attach :: "int \<Rightarrow> int \<Rightarrow> nat \<Rightarrow> splay_tree \<Rightarrow> splay_tree" where
  "attach k v p s =
     (let (a, s1) = Node_init k v s;
          s2 = set_parent a (Some p) s1
      in if k < key (nodes s2 p) then set_left p (Some a) s2 else set_right p (Some a) s2)"

definition insert_end :: "int \<Rightarrow> int \<Rightarrow> splay_tree \<Rightarrow> frame list \<times> shape \<Rightarrow> (error + splay_tree) option" where
  "insert_end k v s r =
     (case snd r of
        Fork l a r' \<Rightarrow> map_option Inr (splay a (set_val a v s))
      | Tip \<Rightarrow> (case ctx_top (fst r) of
                  Some p \<Rightarrow> map_option Inr (splay (fresh s) (attach k v p s))
                | None \<Rightarrow> Some (Inl AttributeError)))"

text \<open>The nodes that can be reached from the root through child links.\<close>

inductive reachable :: "splay_tree \<Rightarrow> nat \<Rightarrow> bool" where
  at_root: "root s = Some a \<Longrightarrow> reachable s a"
| by_left: "reachable s a \<Longrightarrow> left (nodes s a) = Some b \<Longrightarrow> reachable s b"
| by_right: "reachable s a \<Longrightarrow> right (nodes s a) = Some b \<Longrightarrow> reachable s b"

text \<open>
  The trees that a program can build through \<^verbatim>\<open>insert\<close> and \<^verbatim>\<open>search\<close>, starting from an
  object whose root is \<^verbatim>\<open>None\<close>.
\<close>

inductive built :: "splay_tree \<Rightarrow> bool" where
  fresh_tree: "root s = None \<Longrightarrow> built s"
| after_insert: "built s \<Longrightarrow> insert_tree k v s = Some (Inr s') \<Longrightarrow> built s'"
| after_search: "built s \<Longrightarrow> search k s = Some (r, s') \<Longrightarrow> built s'"

subsection \<open>A tree to try the theorems on\<close>

text \<open>
  The tree that holds the keys 0, 1, 2, 3 after \<^verbatim>\<open>SplayTree()\<close> and the insertion of 3, 1
  and 2: the node of key 2 is the root, the nodes of keys 1 and 3 are its children, and
  the node of key 0 is the left child of the node of key 1.
\<close>

definition example_tree :: splay_tree where
  "example_tree =
     \<lparr>root = Some 3,
      nodes = (\<lambda>a.
        if a = 0 then \<lparr>key = 0, val = 0, left = None, right = None, parent = Some 1\<rparr>
        else if a = 1 then \<lparr>key = 1, val = 1, left = Some 0, right = None, parent = Some 3\<rparr>
        else if a = 2 then \<lparr>key = 3, val = 3, left = None, right = None, parent = Some 3\<rparr>
        else if a = 3 then \<lparr>key = 2, val = 2, left = Some 1, right = Some 2, parent = None\<rparr>
        else \<lparr>key = 0, val = 0, left = None, right = None, parent = None\<rparr>),
      fresh = 4\<rparr>"

definition example_shape :: shape where
  "example_shape = Fork (Fork (Fork Tip 0 Tip) 1 Tip) 3 (Fork Tip 2 Tip)"

section \<open>The range sums of task_1.py\<close>

text \<open>
  A Python list is an object: a reference to it is an address in a store of lists, and
  \<^verbatim>\<open>id(array)\<close> is that address. The module-global name \<^verbatim>\<open>array\<close> is bound to a list, or to
  nothing when the module has not run its main block. The entries of the
  \<^verbatim>\<open>lru_cache\<close> of \<^verbatim>\<open>_cached_sum\<close> are kept with the most recently used first.
\<close>

datatype py_error = NameError | IndexError

record module_state =
  array_var :: "nat option"
  list_store :: "nat \<Rightarrow> int list"
  cache :: "((nat \<times> int \<times> int) \<times> int) list"

text \<open>
  The slice \<^verbatim>\<open>xs[i:j]\<close>: a negative bound counts from the end, and both bounds are
  clipped to the list.
\<close>

definition py_slice :: "int list \<Rightarrow> int \<Rightarrow> int \<Rightarrow> int list" where
  "py_slice xs i j =
     (let n = int (length xs);
          lo = (if i < 0 then max (i + n) 0 else min i n);
          hi = (if j < 0 then max (j + n) 0 else min j n)
      in drop (nat lo) (take (nat hi) xs))"

text \<open>The assignment \<^verbatim>\<open>xs[i] = v\<close>, which raises when the index is out of range.\<close>

definition py_setitem :: "int list \<Rightarrow> int \<Rightarrow> int \<Rightarrow> py_error + int list" where
  "py_setitem xs i v =
     (let n = int (length xs); j = (if i < 0 then i + n else i)
      in if 0 \<le> j \<and> j < n then Inr (xs[nat j := v]) else Inl IndexError)"

definition range_sum_no_cache :: "nat \<Rightarrow> int \<Rightarrow> int \<Rightarrow> module_state \<Rightarrow> int" where
  "range_sum_no_cache a L R st = sum_list (py_slice (list_store st a) L (R + 1))"

definition update_no_cache ::
  "nat \<Rightarrow> int \<Rightarrow> int \<Rightarrow> module_state \<Rightarrow> py_error + module_state" where
  "update_no_cache a i v st =
     (case py_setitem (list_store st a) i v of
        Inl e \<Rightarrow> Inl e
      | Inr xs \<Rightarrow> Inr (st\<lparr>list_store := (list_store st)(a := xs)\<rparr>))"

text \<open>
  \<^verbatim>\<open>_cached_sum\<close> under \<^verbatim>\<open>lru_cache(maxsize=1000)\<close>: a call whose arguments are in the cache
  returns the stored result and makes the entry the most recent one; any other call runs
  the body, which reads the global \<^verbatim>\<open>array\<close>, and stores the result, dropping the least
  recently used entry when there are more than 1000. A call that raises stores nothing.
\<close>

definition cached_sum ::
  "nat \<Rightarrow> int \<Rightarrow> int \<Rightarrow> module_state \<Rightarrow> (py_error + int) \<times> module_state" where
  "cached_sum array_id L R st =
     (case map_of (cache st) (array_id, L, R) of
        Some v \<Rightarrow>
          (Inr v,
           st\<lparr>cache := ((array_id, L, R), v) #
                  filter (\<lambda>e. fst e \<noteq> (array_id, L, R)) (cache st)\<rparr>)
      | None \<Rightarrow>
          (case array_var st of
             None \<Rightarrow> (Inl NameError, st)
           | Some g \<Rightarrow>
               let v = sum_list (py_slice (list_store st g) L (R + 1))
               in (Inr v, st\<lparr>cache := take 1000 (((array_id, L, R), v) # cache st)\<rparr>)))"

definition range_sum_with_cache ::
  "nat \<Rightarrow> int \<Rightarrow> int \<Rightarrow> module_state \<Rightarrow> (py_error + int) \<times> module_state" where
  "range_sum_with_cache a L R st = cached_sum a L R st"

definition update_with_cache ::
  "nat \<Rightarrow> int \<Rightarrow> int \<Rightarrow> module_state \<Rightarrow> py_error + module_state" where
  "update_with_cache a i v st =
     (case py_setitem (list_store st a) i v of
        Inl e \<Rightarrow> Inl e
      | Inr xs \<Rightarrow> Inr (st\<lparr>list_store := (list_store st)(a := xs), cache := []\<rparr>))"

text \<open>
  A cache is coherent when every stored result is the sum of its range in the list that
  the global name is bound to now. The empty cache is coherent.
\<close>

definition entry_ok :: "int list \<Rightarrow> (nat \<times> int \<times> int) \<times> int \<Rightarrow> bool" where
  "entry_ok xs e = (snd e = sum_list (py_slice xs (fst (snd (fst e))) (snd (snd (fst e)) + 1)))"

definition coherent :: "module_state \<Rightarrow> bool" where
  "coherent st =
     (case array_var st of
        None \<Rightarrow> cache st = []
      | Some g \<Rightarrow> list_all (entry_ok (list_store st g)) (cache st))"

text \<open>A module whose global list is [1, 2, 3] and that holds another list [10, 20, 30].\<close>

definition example_module :: module_state where
  "example_module =
     \<lparr>array_var = Some 0,
      list_store = (\<lambda>a. if a = 0 then [1, 2, 3] else if a = 1 then [10, 20, 30] else []),
      cache = []\<rparr>"

text \<open>
  The same module after a cached range sum over the first two elements of the global
  list and a following \<^verbatim>\<open>update_no_cache\<close> of its first element to 100.
\<close>

definition stale_module :: module_state where
  "stale_module =
     (case update_no_cache 0 0 100 (snd (range_sum_with_cache 0 0 1 example_module)) of
        Inr st \<Rightarrow> st
      | Inl e \<Rightarrow> example_module)"

section \<open>Properties\<close>

subsection \<open>Shapes, positions and the store\<close>


lemma inorder_plug: "inorder (plug c t) = before c @ inorder t @ after c"
  by (induction c arbitrary: t rule: before.induct) auto

lemma top_fill1 [simp]: "top_of (fill1 f t) = Some (f_addr f)"
  by (cases f) auto

lemma top_plug_cons: "top_of (plug (f # c) t) = top_of (plug (f # c) t')"
  by (induction c arbitrary: f t t') auto

lemma shaped_plug:
  "shaped h None (plug c t) \<longleftrightarrow> shaped_ctx h c (top_of t) \<and> shaped h (ctx_top c) t"
  by (induction c arbitrary: t rule: before.induct) auto

lemma shaped_cong:
  "(\<And>a. a \<in> set (inorder t) \<Longrightarrow> h' a = h a) \<Longrightarrow> shaped h' par t = shaped h par t"
  by (induction t arbitrary: par) auto

lemma shaped_ctx_cong:
  "(\<And>a. a \<in> set (before c) \<union> set (after c) \<Longrightarrow> h' a = h a) \<Longrightarrow>
   shaped_ctx h' c hp = shaped_ctx h c hp"
proof (induction c arbitrary: hp rule: before.induct)
  case (1)
  then show ?case by simp
next
  case (2 p sib c)
  then show ?case using shaped_cong[of sib h' h "Some p"] by auto
next
  case (3 p sib c)
  then show ?case  using shaped_cong[of sib h' h "Some p"] by auto
qed

lemma inorder_rot: "t \<noteq> Tip \<Longrightarrow> inorder (rot f t) = inorder (fill1 f t)"
  by (cases f; cases t) auto

lemma rot_lift: "same_side f g \<Longrightarrow> rot g (fill1 f t) = fill1 (lift f g) t"
  by (cases f; cases g) auto

lemmas setters = set_left_def set_right_def set_parent_def set_val_def

lemma nodes_set_left [simp]:
  "nodes (set_left a q s) b = (if b = a then (nodes s a)\<lparr>left := q\<rparr> else nodes s b)"
  by (simp add: set_left_def)
lemma nodes_set_right [simp]:
  "nodes (set_right a q s) b = (if b = a then (nodes s a)\<lparr>right := q\<rparr> else nodes s b)"
  by (simp add: set_right_def)
lemma nodes_set_parent [simp]:
  "nodes (set_parent a q s) b = (if b = a then (nodes s a)\<lparr>parent := q\<rparr> else nodes s b)"
  by (simp add: set_parent_def)
lemma nodes_set_val [simp]:
  "nodes (set_val a v s) b = (if b = a then (nodes s a)\<lparr>val := v\<rparr> else nodes s b)"
  by (simp add: set_val_def)
lemma root_setters [simp]:
  "root (set_left a q s) = root s" "root (set_right a q s) = root s"
  "root (set_parent a q s) = root s" "root (set_val a v s) = root s"
  by (simp_all add: setters)
lemma fresh_setters [simp]:
  "fresh (set_left a q s) = fresh s" "fresh (set_right a q s) = fresh s"
  "fresh (set_parent a q s) = fresh s" "fresh (set_val a v s) = fresh s"
  by (simp_all add: setters)

lemma rotate_left_nodes:
  assumes "parent (nodes s x) = Some p" "left (nodes s p) = Some x" "x \<noteq> p"
    "parent (nodes s p) = g" "right (nodes s x) = b"
    "b \<noteq> Some x" "b \<noteq> Some p" "g \<noteq> Some x" "g \<noteq> Some p" "g = None \<or> g \<noteq> b"
  shows "nodes (rotate_node x s) a =
     (if a = x then (nodes s x)\<lparr>right := Some p, parent := g\<rparr>
          else if a = p then (nodes s p)\<lparr>left := b, parent := Some x\<rparr>
          else if Some a = b then (nodes s a)\<lparr>parent := Some p\<rparr>
          else if Some a = g then
            (if left (nodes s a) = Some p then (nodes s a)\<lparr>left := Some x\<rparr>
             else (nodes s a)\<lparr>right := Some x\<rparr>)
          else nodes s a)"
  using assms
  by (cases g; cases b) (auto simp: rotate_node_def Let_def)

lemma rotate_right_nodes:
  assumes "parent (nodes s x) = Some p" "left (nodes s p) \<noteq> Some x" "x \<noteq> p"
    "parent (nodes s p) = g" "left (nodes s x) = b"
    "b \<noteq> Some x" "b \<noteq> Some p" "g \<noteq> Some x" "g \<noteq> Some p" "g = None \<or> g \<noteq> b"
  shows "nodes (rotate_node x s) a =
     (if a = x then (nodes s x)\<lparr>left := Some p, parent := g\<rparr>
          else if a = p then (nodes s p)\<lparr>right := b, parent := Some x\<rparr>
          else if Some a = b then (nodes s a)\<lparr>parent := Some p\<rparr>
          else if Some a = g then
            (if left (nodes s a) = Some p then (nodes s a)\<lparr>left := Some x\<rparr>
             else (nodes s a)\<lparr>right := Some x\<rparr>)
          else nodes s a)"
  using assms
  by (cases g; cases b) (auto simp: rotate_node_def Let_def)

lemma rotate_root:
  "parent (nodes s x) = Some p \<Longrightarrow>
   root (rotate_node x s) = (if parent (nodes s p) = None then Some x else root s)"
  by (auto simp: rotate_node_def Let_def split: option.splits)

lemma rotate_fresh: "fresh (rotate_node x s) = fresh s"
  by (auto simp: rotate_node_def Let_def split: option.splits)

lemma rotate_key: "key (nodes (rotate_node x s) a) = key (nodes s a)"
  by (auto simp: rotate_node_def Let_def split: option.splits)

lemma rotate_val: "val (nodes (rotate_node x s) a) = val (nodes s a)"
  by (auto simp: rotate_node_def Let_def split: option.splits)

subsection \<open>A rotation on the store is a rotation of the shape\<close>


lemma top_of_mem: "top_of t = Some a \<Longrightarrow> a \<in> set (inorder t)"
  by (cases t) auto

lemma ctx_top_mem: "ctx_top c = Some g \<Longrightarrow> g \<in> set (before c) \<union> set (after c)"
  by (cases c rule: before.cases) auto

lemma shaped_top_upd:
  assumes "shaped h par t" "\<And>a. a \<in> set (inorder t) \<Longrightarrow> Some a \<noteq> top_of t \<Longrightarrow> h' a = h a"
    "\<And>a. top_of t = Some a \<Longrightarrow> parent (h' a) = par' \<and> left (h' a) = left (h a) \<and> right (h' a) = right (h a)"
    "distinct (inorder t)"
  shows "shaped h' par' t"
proof (cases t)
  case Tip
  then show ?thesis by simp
next
  case (Fork l a r)
  have "shaped h' (Some a) l = shaped h (Some a) l"
    using assms(2,4) Fork by (intro shaped_cong) auto
  moreover have "shaped h' (Some a) r = shaped h (Some a) r"
    using assms(2,4) Fork by (intro shaped_cong) auto
  ultimately show ?thesis using assms(1,3) Fork by auto
qed

lemma rotate_shaped_left:
  assumes sh: "shaped (nodes s) None (plug (InLeft p sib # c) (Fork l x r))"
    and d: "distinct (inorder (plug (InLeft p sib # c) (Fork l x r)))"
  shows "shaped (nodes (rotate_node x s)) None (plug c (Fork l x (Fork r p sib)))"
proof -
  let ?h = "nodes s"
  let ?h' = "nodes (rotate_node x s)"
  from sh have ctx: "parent (?h p) = ctx_top c" "left (?h p) = Some x" "right (?h p) = top_of sib"
      "shaped ?h (Some p) sib" "shaped_ctx ?h c (Some p)"
    and sub: "parent (?h x) = Some p" "left (?h x) = top_of l" "right (?h x) = top_of r"
      "shaped ?h (Some x) l" "shaped ?h (Some x) r"
    by (simp_all add: shaped_plug)
  define C where "C = set (before c) \<union> set (after c)"
  from d have dd: "distinct (before c @ inorder l @ x # inorder r @ p # inorder sib @ after c)"
    by (simp add: inorder_plug)
  have xp: "x \<noteq> p" using dd by auto
  have xC: "x \<notin> C" "p \<notin> C" "x \<notin> set (inorder l)" "x \<notin> set (inorder r)" "x \<notin> set (inorder sib)"
    "p \<notin> set (inorder l)" "p \<notin> set (inorder r)" "p \<notin> set (inorder sib)"
    using dd unfolding C_def by auto
  have dj: "set (inorder l) \<inter> C = {}" "set (inorder r) \<inter> C = {}" "set (inorder sib) \<inter> C = {}"
    "set (inorder l) \<inter> set (inorder r) = {}" "set (inorder l) \<inter> set (inorder sib) = {}"
    "set (inorder r) \<inter> set (inorder sib) = {}"
    using dd unfolding C_def by auto
  have bm: "\<And>a. top_of r = Some a \<Longrightarrow> a \<in> set (inorder r)" by (rule top_of_mem)
  have gm: "\<And>a. ctx_top c = Some a \<Longrightarrow> a \<in> C" unfolding C_def by (rule ctx_top_mem)
  have b1: "top_of r \<noteq> Some x" "top_of r \<noteq> Some p" using bm xC by auto
  have g1: "ctx_top c \<noteq> Some x" "ctx_top c \<noteq> Some p" using gm xC by auto
  have g2: "ctx_top c = None \<or> ctx_top c \<noteq> top_of r"
  proof (cases "ctx_top c")
    case None
    then show ?thesis by simp
  next
    case (Some a)
    then have "a \<in> C" by (rule gm)
    then have "a \<notin> set (inorder r)" using dj(2) by auto
    then have "top_of r \<noteq> Some a" using bm by auto
    then show ?thesis using Some by simp
  qed
  note H = rotate_left_nodes[OF sub(1) ctx(2) xp ctx(1) sub(3) b1 g1 g2]
  have same: "?h' a = ?h a" if "a \<noteq> x" "a \<noteq> p" "a \<notin> set (inorder r)" "a \<notin> C" for a
  proof -
    have "Some a \<noteq> top_of r" "Some a \<noteq> ctx_top c" using that bm[of a] gm[of a] by auto
    then show ?thesis using that by (simp add: H)
  qed
  have hx: "?h' x = (?h x)\<lparr>right := Some p, parent := ctx_top c\<rparr>" by (simp add: H)
  have hp: "?h' p = (?h p)\<lparr>left := top_of r, parent := Some x\<rparr>" using xp by (simp add: H)
  have "shaped ?h' (Some x) l = shaped ?h (Some x) l"
    using xC dj by (intro shaped_cong same) auto
  then have 1: "shaped ?h' (Some x) l" using sub(4) by simp
  have "shaped ?h' (Some p) sib = shaped ?h (Some p) sib"
    using xC dj by (intro shaped_cong same) auto
  then have 2: "shaped ?h' (Some p) sib" using ctx(4) by simp
  have 3: "shaped ?h' (Some p) r"
  proof (rule shaped_top_upd[OF sub(5)])
    fix a assume a: "a \<in> set (inorder r)" "Some a \<noteq> top_of r"
    then have "Some a \<noteq> ctx_top c" using gm[of a] dj(2) by auto
    with a show "?h' a = ?h a" using xC by (auto simp: H)
  next
    fix a assume a: "top_of r = Some a"
    then have "a \<noteq> x" "a \<noteq> p" using b1 by auto
    with a show "parent (?h' a) = Some p \<and> left (?h' a) = left (?h a) \<and> right (?h' a) = right (?h a)"
      by (simp add: H)
  next
    show "distinct (inorder r)" using dd by simp
  qed
  have 4: "shaped_ctx ?h' c (Some x)"
  proof (cases c rule: before.cases)
    case 1
    then show ?thesis by simp
  next
    case (2 g gs c')
    have gC: "g \<in> C" "set (inorder gs) \<subseteq> C" "set (before c') \<union> set (after c') \<subseteq> C"
      unfolding C_def 2 by auto
    have dg: "g \<notin> set (inorder gs)" "g \<notin> set (before c') \<union> set (after c')"
      using dd unfolding 2 by auto
    have gne: "g \<noteq> x" "g \<noteq> p" "Some g \<noteq> top_of r" using gC(1) xC bm[of g] dj(2) by auto
    have "shaped ?h' (Some g) gs = shaped ?h (Some g) gs"
    proof (rule shaped_cong)
      fix a assume a: "a \<in> set (inorder gs)"
      then have "a \<noteq> g" "a \<in> C" using dg gC by auto
      then have "a \<noteq> x" "a \<noteq> p" "Some a \<noteq> top_of r" "Some a \<noteq> ctx_top c"
        using xC bm[of a] dj(2) 2 by auto
      then show "?h' a = ?h a" by (simp add: H)
    qed
    moreover have "shaped_ctx ?h' c' (Some g) = shaped_ctx ?h c' (Some g)"
    proof (rule shaped_ctx_cong)
      fix a assume a: "a \<in> set (before c') \<union> set (after c')"
      then have "a \<noteq> g" "a \<in> C" using dg gC by auto
      then have "a \<noteq> x" "a \<noteq> p" "Some a \<noteq> top_of r" "Some a \<noteq> ctx_top c"
        using xC bm[of a] dj(2) 2 by auto
      then show "?h' a = ?h a" by (simp add: H)
    qed
    moreover have "left (?h g) = Some p" using ctx(5) 2 by simp
    then have "?h' g = (?h g)\<lparr>left := Some x\<rparr>"
      using gne 2 by (simp add: H)
    ultimately show ?thesis using 2 ctx(5) by simp
  next
    case (3 g gs c')
    have gC: "g \<in> C" "set (inorder gs) \<subseteq> C" "set (before c') \<union> set (after c') \<subseteq> C"
      unfolding C_def 3 by auto
    have dg: "g \<notin> set (inorder gs)" "g \<notin> set (before c') \<union> set (after c')"
      using dd unfolding 3 by auto
    have gne: "g \<noteq> x" "g \<noteq> p" "Some g \<noteq> top_of r" using gC(1) xC bm[of g] dj(2) by auto
    have "shaped ?h' (Some g) gs = shaped ?h (Some g) gs"
    proof (rule shaped_cong)
      fix a assume a: "a \<in> set (inorder gs)"
      then have "a \<noteq> g" "a \<in> C" using dg gC by auto
      then have "a \<noteq> x" "a \<noteq> p" "Some a \<noteq> top_of r" "Some a \<noteq> ctx_top c"
        using xC bm[of a] dj(2) 3 by auto
      then show "?h' a = ?h a" by (simp add: H)
    qed
    moreover have "shaped_ctx ?h' c' (Some g) = shaped_ctx ?h c' (Some g)"
    proof (rule shaped_ctx_cong)
      fix a assume a: "a \<in> set (before c') \<union> set (after c')"
      then have "a \<noteq> g" "a \<in> C" using dg gC by auto
      then have "a \<noteq> x" "a \<noteq> p" "Some a \<noteq> top_of r" "Some a \<noteq> ctx_top c"
        using xC bm[of a] dj(2) 3 by auto
      then show "?h' a = ?h a" by (simp add: H)
    qed
    moreover have "left (?h g) \<noteq> Some p"
    proof
      assume "left (?h g) = Some p"
      then have "top_of gs = Some p" using ctx(5) 3 by simp
      then have "p \<in> C" using top_of_mem[of gs p] gC by auto
      then show False using xC by simp
    qed
    then have "?h' g = (?h g)\<lparr>right := Some x\<rparr>"
      using gne 3 by (simp add: H)
    ultimately show ?thesis using 3 ctx(5) by simp
  qed
  show ?thesis
    unfolding shaped_plug using 1 2 3 4 hx hp sub ctx by simp
qed

lemma rotate_shaped_right:
  assumes sh: "shaped (nodes s) None (plug (InRight p sib # c) (Fork l x r))"
    and d: "distinct (inorder (plug (InRight p sib # c) (Fork l x r)))"
  shows "shaped (nodes (rotate_node x s)) None (plug c (Fork (Fork sib p l) x r))"
proof -
  let ?h = "nodes s"
  let ?h' = "nodes (rotate_node x s)"
  from sh have ctx: "parent (?h p) = ctx_top c" "right (?h p) = Some x" "left (?h p) = top_of sib"
      "shaped ?h (Some p) sib" "shaped_ctx ?h c (Some p)"
    and sub: "parent (?h x) = Some p" "left (?h x) = top_of l" "right (?h x) = top_of r"
      "shaped ?h (Some x) l" "shaped ?h (Some x) r"
    by (simp_all add: shaped_plug)
  define C where "C = set (before c) \<union> set (after c)"
  from d have dd: "distinct (before c @ inorder sib @ p # inorder l @ x # inorder r @ after c)"
    by (simp add: inorder_plug)
  have xp: "x \<noteq> p" using dd by auto
  have xC: "x \<notin> C" "p \<notin> C" "x \<notin> set (inorder l)" "x \<notin> set (inorder r)" "x \<notin> set (inorder sib)"
    "p \<notin> set (inorder l)" "p \<notin> set (inorder r)" "p \<notin> set (inorder sib)"
    using dd unfolding C_def by auto
  have dj: "set (inorder l) \<inter> C = {}" "set (inorder r) \<inter> C = {}" "set (inorder sib) \<inter> C = {}"
    "set (inorder l) \<inter> set (inorder r) = {}" "set (inorder l) \<inter> set (inorder sib) = {}"
    "set (inorder r) \<inter> set (inorder sib) = {}"
    using dd unfolding C_def by auto
  have bm: "\<And>a. top_of l = Some a \<Longrightarrow> a \<in> set (inorder l)" by (rule top_of_mem)
  have gm: "\<And>a. ctx_top c = Some a \<Longrightarrow> a \<in> C" unfolding C_def by (rule ctx_top_mem)
  have b1: "top_of l \<noteq> Some x" "top_of l \<noteq> Some p" using bm xC by auto
  have g1: "ctx_top c \<noteq> Some x" "ctx_top c \<noteq> Some p" using gm xC by auto
  have g2: "ctx_top c = None \<or> ctx_top c \<noteq> top_of l"
  proof (cases "ctx_top c")
    case None
    then show ?thesis by simp
  next
    case (Some a)
    then have "a \<in> C" by (rule gm)
    then have "a \<notin> set (inorder l)" using dj(1) by auto
    then have "top_of l \<noteq> Some a" using bm by auto
    then show ?thesis using Some by simp
  qed
  have nl: "left (?h p) \<noteq> Some x" using ctx(3) top_of_mem[of sib x] xC by auto
  note H = rotate_right_nodes[OF sub(1) nl xp ctx(1) sub(2) b1 g1 g2]
  have same: "?h' a = ?h a" if "a \<noteq> x" "a \<noteq> p" "a \<notin> set (inorder l)" "a \<notin> C" for a
  proof -
    have "Some a \<noteq> top_of l" "Some a \<noteq> ctx_top c" using that bm[of a] gm[of a] by auto
    then show ?thesis using that by (simp add: H)
  qed
  have hx: "?h' x = (?h x)\<lparr>left := Some p, parent := ctx_top c\<rparr>" by (simp add: H)
  have hp: "?h' p = (?h p)\<lparr>right := top_of l, parent := Some x\<rparr>" using xp by (simp add: H)
  have "shaped ?h' (Some x) r = shaped ?h (Some x) r"
    using xC dj by (intro shaped_cong same) auto
  then have 1: "shaped ?h' (Some x) r" using sub(5) by simp
  have "shaped ?h' (Some p) sib = shaped ?h (Some p) sib"
    using xC dj by (intro shaped_cong same) auto
  then have 2: "shaped ?h' (Some p) sib" using ctx(4) by simp
  have 3: "shaped ?h' (Some p) l"
  proof (rule shaped_top_upd[OF sub(4)])
    fix a assume a: "a \<in> set (inorder l)" "Some a \<noteq> top_of l"
    then have "Some a \<noteq> ctx_top c" using gm[of a] dj(1) by auto
    with a show "?h' a = ?h a" using xC by (auto simp: H)
  next
    fix a assume a: "top_of l = Some a"
    then have "a \<noteq> x" "a \<noteq> p" using b1 by auto
    with a show "parent (?h' a) = Some p \<and> left (?h' a) = left (?h a) \<and> right (?h' a) = right (?h a)"
      by (simp add: H)
  next
    show "distinct (inorder l)" using dd by simp
  qed
  have 4: "shaped_ctx ?h' c (Some x)"
  proof (cases c rule: before.cases)
    case 1
    then show ?thesis by simp
  next
    case (2 g gs c')
    have gC: "g \<in> C" "set (inorder gs) \<subseteq> C" "set (before c') \<union> set (after c') \<subseteq> C"
      unfolding C_def 2 by auto
    have dg: "g \<notin> set (inorder gs)" "g \<notin> set (before c') \<union> set (after c')"
      using dd unfolding 2 by auto
    have gne: "g \<noteq> x" "g \<noteq> p" "Some g \<noteq> top_of l" using gC(1) xC bm[of g] dj(1) by auto
    have "shaped ?h' (Some g) gs = shaped ?h (Some g) gs"
    proof (rule shaped_cong)
      fix a assume a: "a \<in> set (inorder gs)"
      then have "a \<noteq> g" "a \<in> C" using dg gC by auto
      then have "a \<noteq> x" "a \<noteq> p" "Some a \<noteq> top_of l" "Some a \<noteq> ctx_top c"
        using xC bm[of a] dj(1) 2 by auto
      then show "?h' a = ?h a" by (simp add: H)
    qed
    moreover have "shaped_ctx ?h' c' (Some g) = shaped_ctx ?h c' (Some g)"
    proof (rule shaped_ctx_cong)
      fix a assume a: "a \<in> set (before c') \<union> set (after c')"
      then have "a \<noteq> g" "a \<in> C" using dg gC by auto
      then have "a \<noteq> x" "a \<noteq> p" "Some a \<noteq> top_of l" "Some a \<noteq> ctx_top c"
        using xC bm[of a] dj(1) 2 by auto
      then show "?h' a = ?h a" by (simp add: H)
    qed
    moreover have "left (?h g) = Some p" using ctx(5) 2 by simp
    then have "?h' g = (?h g)\<lparr>left := Some x\<rparr>"
      using gne 2 by (simp add: H)
    ultimately show ?thesis using 2 ctx(5) by simp
  next
    case (3 g gs c')
    have gC: "g \<in> C" "set (inorder gs) \<subseteq> C" "set (before c') \<union> set (after c') \<subseteq> C"
      unfolding C_def 3 by auto
    have dg: "g \<notin> set (inorder gs)" "g \<notin> set (before c') \<union> set (after c')"
      using dd unfolding 3 by auto
    have gne: "g \<noteq> x" "g \<noteq> p" "Some g \<noteq> top_of l" using gC(1) xC bm[of g] dj(1) by auto
    have "shaped ?h' (Some g) gs = shaped ?h (Some g) gs"
    proof (rule shaped_cong)
      fix a assume a: "a \<in> set (inorder gs)"
      then have "a \<noteq> g" "a \<in> C" using dg gC by auto
      then have "a \<noteq> x" "a \<noteq> p" "Some a \<noteq> top_of l" "Some a \<noteq> ctx_top c"
        using xC bm[of a] dj(1) 3 by auto
      then show "?h' a = ?h a" by (simp add: H)
    qed
    moreover have "shaped_ctx ?h' c' (Some g) = shaped_ctx ?h c' (Some g)"
    proof (rule shaped_ctx_cong)
      fix a assume a: "a \<in> set (before c') \<union> set (after c')"
      then have "a \<noteq> g" "a \<in> C" using dg gC by auto
      then have "a \<noteq> x" "a \<noteq> p" "Some a \<noteq> top_of l" "Some a \<noteq> ctx_top c"
        using xC bm[of a] dj(1) 3 by auto
      then show "?h' a = ?h a" by (simp add: H)
    qed
    moreover have "left (?h g) \<noteq> Some p"
    proof
      assume "left (?h g) = Some p"
      then have "top_of gs = Some p" using ctx(5) 3 by simp
      then have "p \<in> C" using top_of_mem[of gs p] gC by auto
      then show False using xC by simp
    qed
    then have "?h' g = (?h g)\<lparr>right := Some x\<rparr>"
      using gne 3 by (simp add: H)
    ultimately show ?thesis using 3 ctx(5) by simp
  qed
  show ?thesis
    unfolding shaped_plug using 1 2 3 4 hx hp sub ctx by simp
qed


lemma inorder_rot_plug:
  "inorder (plug c (rot f (Fork l x r))) = inorder (plug (f # c) (Fork l x r))"
  by (cases f) (simp_all add: inorder_plug)

lemma rotate_shape:
  assumes "tree_shape s (plug (f # c) (Fork l x r))"
  shows "tree_shape (rotate_node x s) (plug c (rot f (Fork l x r)))"
proof -
  let ?t = "plug (f # c) (Fork l x r)"
  from assms have sh: "shaped (nodes s) None ?t" and d: "distinct (inorder ?t)"
    and rt: "root s = top_of ?t" and fr: "list_all (\<lambda>a. a < fresh s) (inorder ?t)"
    by (simp_all add: tree_shape_def)
  have px: "parent (nodes s x) = Some (f_addr f)" and pp: "parent (nodes s (f_addr f)) = ctx_top c"
    using sh by (cases f; simp add: shaped_plug)+
  have 1: "shaped (nodes (rotate_node x s)) None (plug c (rot f (Fork l x r)))"
    using sh d rotate_shaped_left rotate_shaped_right by (cases f) simp_all
  have 2: "root (rotate_node x s) = top_of (plug c (rot f (Fork l x r)))"
  proof (cases c)
    case Nil
    then show ?thesis using px pp by (cases f) (simp_all add: rotate_root)
  next
    case (Cons g c')
    then have "root (rotate_node x s) = root s" using px pp by (simp add: rotate_root)
    also have "\<dots> = top_of (plug (g # c') (fill1 f (Fork l x r)))" using rt Cons by simp
    also have "\<dots> = top_of (plug (g # c') (rot f (Fork l x r)))" by (rule top_plug_cons)
    finally show ?thesis using Cons by simp
  qed
  show ?thesis
    unfolding tree_shape_def using 1 2 d fr by (simp add: inorder_rot_plug rotate_fresh)
qed

subsection \<open>The loop of splay\<close>


lemma rot_Fork: "\<exists>l' r'. rot f (Fork l x r) = Fork l' x r'"
  by (cases f) auto

lemma shape_focus:
  assumes "tree_shape s (plug c (Fork l x r))"
  shows "parent (nodes s x) = ctx_top c"
  using assms by (simp add: tree_shape_def shaped_plug)

lemma shape_focus_left:
  assumes "tree_shape s (plug (f # c) (Fork l x r))"
  shows "(left (nodes s (f_addr f)) = Some x) = (case f of InLeft _ _ \<Rightarrow> True | InRight _ _ \<Rightarrow> False)"
proof (cases f)
  case (InLeft p sib)
  then show ?thesis using assms by (simp add: tree_shape_def shaped_plug)
next
  case (InRight p sib)
  then have "left (nodes s p) = top_of sib" and "x \<notin> set (inorder sib)"
    using assms by (auto simp add: tree_shape_def shaped_plug inorder_plug)
  then show ?thesis using InRight top_of_mem[of sib x] by auto
qed

lemma same_side_iff:
  "same_side f g = ((case f of InLeft _ _ \<Rightarrow> True | InRight _ _ \<Rightarrow> False) =
                    (case g of InLeft _ _ \<Rightarrow> True | InRight _ _ \<Rightarrow> False))"
  by (cases f; cases g) auto

lemma fill1_Fork: "\<exists>l' r'. fill1 f t = Fork l' (f_addr f) r'"
  by (cases f) auto

lemma splay_step_shape:
  assumes "tree_shape s (plug c (Fork l x r))" "c \<noteq> []"
  shows "\<exists>l' r'. tree_shape (splay_step x s) (plug (fst (step_shape c (Fork l x r))) (Fork l' x r'))
          \<and> snd (step_shape c (Fork l x r)) = Fork l' x r'"
proof (cases "(c, Fork l x r)" rule: step_shape.cases)
  case (1 t)
  then show ?thesis using assms by simp
next
  case (2 f t)
  then have c: "c = [f]" by simp
  have "parent (nodes s x) = Some (f_addr f)" using shape_focus[OF assms(1)] c by simp
  moreover have "parent (nodes s (f_addr f)) = None"
    using assms(1) c fill1_Fork[of f "Fork l x r"] shape_focus[of s "[]" _ "f_addr f"] by fastforce
  ultimately have "splay_step x s = rotate_node x s" by (simp add: splay_step_def)
  moreover have "tree_shape (rotate_node x s) (plug [] (rot f (Fork l x r)))"
    using assms(1) c by (intro rotate_shape) simp
  ultimately show ?thesis using c rot_Fork[of f l x r] by auto
next
  case (3 f g c' t)
  then have c: "c = f # g # c'" by simp
  obtain pl pr where pf: "fill1 f (Fork l x r) = Fork pl (f_addr f) pr"
    using fill1_Fork by blast
  have ts: "tree_shape s (plug (f # g # c') (Fork l x r))" using assms(1) c by simp
  have tp: "tree_shape s (plug (g # c') (Fork pl (f_addr f) pr))" using ts pf by simp
  have px: "parent (nodes s x) = Some (f_addr f)" using shape_focus[OF ts] by simp
  have pp: "parent (nodes s (f_addr f)) = Some (f_addr g)" using shape_focus[OF tp] by simp
  have cond: "((left (nodes s (f_addr f)) = Some x) = (left (nodes s (f_addr g)) = Some (f_addr f)))
      = same_side f g"
    unfolding shape_focus_left[OF ts] shape_focus_left[OF tp] same_side_iff ..
  show ?thesis
  proof (cases "same_side f g")
    case True
    then have st: "splay_step x s = rotate_node x (rotate_node (f_addr f) s)"
      using px pp cond by (simp add: splay_step_def)
    have "tree_shape (rotate_node (f_addr f) s) (plug c' (rot g (Fork pl (f_addr f) pr)))"
      using tp by (rule rotate_shape)
    then have "tree_shape (rotate_node (f_addr f) s) (plug (lift f g # c') (Fork l x r))"
      using rot_lift[OF True, of "Fork l x r"] pf by simp
    then have "tree_shape (rotate_node x (rotate_node (f_addr f) s)) (plug c' (rot (lift f g) (Fork l x r)))"
      by (rule rotate_shape)
    then show ?thesis using st c True rot_Fork[of "lift f g" l x r] by auto
  next
    case False
    then have st: "splay_step x s = rotate_node x (rotate_node x s)"
      using px pp cond by (simp add: splay_step_def)
    obtain l1 r1 where r1: "rot f (Fork l x r) = Fork l1 x r1" using rot_Fork by blast
    have "tree_shape (rotate_node x s) (plug (g # c') (rot f (Fork l x r)))"
      using ts by (rule rotate_shape)
    then have "tree_shape (rotate_node x s) (plug (g # c') (Fork l1 x r1))" using r1 by simp
    then have "tree_shape (rotate_node x (rotate_node x s)) (plug c' (rot g (Fork l1 x r1)))"
      by (rule rotate_shape)
    then show ?thesis using st c False r1 rot_Fork[of g l1 x r1] by auto
  qed
qed


lemma splay_step_key: "key (nodes (splay_step x s) a) = key (nodes s a)"
  by (simp add: splay_step_def rotate_key split: option.splits)

lemma splay_step_val: "val (nodes (splay_step x s) a) = val (nodes s a)"
  by (simp add: splay_step_def rotate_val split: option.splits)

lemma splay_step_fresh: "fresh (splay_step x s) = fresh s"
  by (simp add: splay_step_def rotate_fresh split: option.splits)

lemma splay_steps_key: "key (nodes ((splay_step x ^^ n) s) a) = key (nodes s a)"
  by (induction n) (simp_all add: splay_step_key)

lemma splay_steps_val: "val (nodes ((splay_step x ^^ n) s) a) = val (nodes s a)"
  by (induction n) (simp_all add: splay_step_val)

lemma splay_steps_fresh: "fresh ((splay_step x ^^ n) s) = fresh s"
  by (induction n) (simp_all add: splay_step_fresh)

lemma inorder_step_shape:
  "inorder (plug (fst (step_shape c (Fork l x r))) (snd (step_shape c (Fork l x r))))
     = inorder (plug c (Fork l x r))"
proof (cases "(c, Fork l x r)" rule: step_shape.cases)
  case (1 t)
  then show ?thesis by simp
next
  case (2 f t)
  then show ?thesis using inorder_rot_plug[of "[]" f l x r] by simp
next
  case (3 f g c' t)
  then have c: "c = f # g # c'" by simp
  show ?thesis
  proof (cases "same_side f g")
    case True
    have "inorder (plug c' (rot (lift f g) (Fork l x r))) = inorder (plug (lift f g # c') (Fork l x r))"
      by (rule inorder_rot_plug)
    also have "\<dots> = inorder (plug c' (rot g (fill1 f (Fork l x r))))"
      using rot_lift[OF True, of "Fork l x r"] by simp
    also have "\<dots> = inorder (plug (g # c') (fill1 f (Fork l x r)))"
      using fill1_Fork[of f "Fork l x r"] inorder_rot_plug[of c' g] by auto
    finally show ?thesis using c True by simp
  next
    case False
    obtain l1 r1 where r1: "rot f (Fork l x r) = Fork l1 x r1" using rot_Fork by blast
    have "inorder (plug c' (rot g (Fork l1 x r1))) = inorder (plug (g # c') (Fork l1 x r1))"
      by (rule inorder_rot_plug)
    also have "\<dots> = inorder (plug (g # c') (rot f (Fork l x r)))" using r1 by simp
    also have "\<dots> = inorder (plug (f # g # c') (Fork l x r))" by (rule inorder_rot_plug)
    finally show ?thesis using c False r1 by simp
  qed
qed

lemma length_step_shape:
  "length (fst (step_shape c t)) = length c - (if length c = 1 then 1 else 2)"
  by (cases "(c, t)" rule: step_shape.cases) auto

lemma depth_shape:
  "tree_shape s (plug c (Fork l x r)) \<Longrightarrow> depth (nodes s) x = Some (length c)"
proof (induction c arbitrary: l x r)
  case Nil
  then have "parent (nodes s x) = None" using shape_focus[of s "[]"] by simp
  then show ?case by (subst depth.simps) simp
next
  case (Cons f c)
  obtain pl pr where pf: "fill1 f (Fork l x r) = Fork pl (f_addr f) pr"
    using fill1_Fork by blast
  then have "depth (nodes s) (f_addr f) = Some (length c)" using Cons by simp
  moreover have "parent (nodes s x) = Some (f_addr f)" using shape_focus[OF Cons.prems] by simp
  ultimately show ?case by (subst depth.simps) simp
qed

lemma splay_shape:
  assumes "tree_shape s (plug c (Fork l x r))"
  shows "\<exists>n l' r'. n \<le> length c \<and> splay x s = Some ((splay_step x ^^ n) s) \<and>
           tree_shape ((splay_step x ^^ n) s) (Fork l' x r') \<and>
           inorder (Fork l' x r') = inorder (plug c (Fork l x r))"
  using assms
proof (induction "length c" arbitrary: c s l r rule: less_induct)
  case less
  show ?case
  proof (cases "c = []")
    case True
    then have "parent (nodes s x) = None" using shape_focus[OF less.prems] by simp
    then have "splay x s = Some ((splay_step x ^^ 0) s)" by (subst splay.simps) simp
    then show ?thesis using True less.prems by (intro exI[of _ 0]) auto
  next
    case False
    let ?c1 = "fst (step_shape c (Fork l x r))"
    obtain l1 r1 where s1: "tree_shape (splay_step x s) (plug ?c1 (Fork l1 x r1))"
      and e1: "snd (step_shape c (Fork l x r)) = Fork l1 x r1"
      using splay_step_shape[OF less.prems False] by blast
    have len: "length ?c1 < length c" "Suc (length ?c1) \<le> length c"
      using False by (auto simp: length_step_shape neq_Nil_conv)
    from less.hyps[OF len(1) s1] obtain n l' r' where
      n: "n \<le> length ?c1" "splay x (splay_step x s) = Some ((splay_step x ^^ n) (splay_step x s))"
        "tree_shape ((splay_step x ^^ n) (splay_step x s)) (Fork l' x r')"
        "inorder (Fork l' x r') = inorder (plug ?c1 (Fork l1 x r1))"
      by blast
    obtain q where "parent (nodes s x) = Some q"
      using shape_focus[OF less.prems] False by (cases c) auto
    then have "splay x s = splay x (splay_step x s)" by (subst splay.simps) simp
    moreover have "(splay_step x ^^ n) (splay_step x s) = (splay_step x ^^ Suc n) s"
      by (simp add: funpow_swap1)
    moreover have "inorder (plug ?c1 (Fork l1 x r1)) = inorder (plug c (Fork l x r))"
      using inorder_step_shape[of c l x r] e1 by simp
    ultimately show ?thesis using n len(2)
      by (intro exI[of _ "Suc n"] exI[of _ l'] exI[of _ r']) (simp del: funpow.simps)
  qed
qed

subsection \<open>The walks of insert and search\<close>


lemma shaped_links_cong:
  "(\<And>a. a \<in> set (inorder t) \<Longrightarrow>
      parent (h' a) = parent (h a) \<and> left (h' a) = left (h a) \<and> right (h' a) = right (h a)) \<Longrightarrow>
   shaped h' par t = shaped h par t"
  by (induction t arbitrary: par) auto

lemma plug_descend: "plug (fst (descend h k c t)) (snd (descend h k c t)) = plug c t"
  by (induction t arbitrary: c) auto

lemma path_ok_descend: "path_ok h k c \<Longrightarrow> path_ok h k (fst (descend h k c t))"
  by (induction t arbitrary: c) auto

lemma descend_key: "snd (descend h k c t) = Fork l a r \<Longrightarrow> key (h a) = k"
  by (induction t arbitrary: c) (auto split: if_splits)

lemma search_loop_descend:
  "shaped (nodes s) (ctx_top c) t \<Longrightarrow>
   search_loop k (top_of t) (ctx_top c) s = search_end k s (descend (nodes s) k c t)"
proof (induction t arbitrary: c)
  case Tip
  then show ?case by (subst search_loop.simps) (simp add: search_end_def)
next
  case (Fork l a r)
  from Fork.prems have lk: "left (nodes s a) = top_of l" "right (nodes s a) = top_of r"
    and sl: "shaped (nodes s) (ctx_top (InLeft a r # c)) l"
    and sr: "shaped (nodes s) (ctx_top (InRight a l # c)) r"
    by simp_all
  show ?case
  proof (cases "k < key (nodes s a)")
    case True
    then show ?thesis using Fork.IH(1)[OF sl] lk
      by (subst search_loop.simps) simp
  next
    case False
    show ?thesis
    proof (cases "key (nodes s a) < k")
      case True
      then show ?thesis using Fork.IH(2)[OF sr] lk False
        by (subst search_loop.simps) simp
    next
      case False
      then show ?thesis using \<open>\<not> k < key (nodes s a)\<close>
        by (subst search_loop.simps) (simp add: search_end_def)
    qed
  qed
qed

lemma insert_loop_descend:
  "shaped (nodes s) (ctx_top c) t \<Longrightarrow>
   insert_loop k v (top_of t) (ctx_top c) s = insert_end k v s (descend (nodes s) k c t)"
proof (induction t arbitrary: c)
  case Tip
  then show ?case
    by (subst insert_loop.simps)
       (simp add: insert_end_def attach_def Node_init_def Let_def split: option.splits)
next
  case (Fork l a r)
  from Fork.prems have lk: "left (nodes s a) = top_of l" "right (nodes s a) = top_of r"
    and sl: "shaped (nodes s) (ctx_top (InLeft a r # c)) l"
    and sr: "shaped (nodes s) (ctx_top (InRight a l # c)) r"
    by simp_all
  show ?case
  proof (cases "k < key (nodes s a)")
    case True
    then show ?thesis using Fork.IH(1)[OF sl] lk
      by (subst insert_loop.simps) simp
  next
    case False
    show ?thesis
    proof (cases "key (nodes s a) < k")
      case True
      then show ?thesis using Fork.IH(2)[OF sr] lk False
        by (subst insert_loop.simps) simp
    next
      case False
      then show ?thesis using \<open>\<not> k < key (nodes s a)\<close>
        by (subst insert_loop.simps) (simp add: insert_end_def)
    qed
  qed
qed

subsection \<open>Attaching a new node\<close>


lemma attach_nodes:
  "p \<noteq> fresh s \<Longrightarrow> nodes (attach k v p s) b =
     (if b = p then (if k < key (nodes s p) then (nodes s p)\<lparr>left := Some (fresh s)\<rparr>
                     else (nodes s p)\<lparr>right := Some (fresh s)\<rparr>)
      else if b = fresh s then \<lparr>key = k, val = v, left = None, right = None, parent = Some p\<rparr>
      else nodes s b)"
  by (simp add: attach_def Node_init_def Let_def)

lemma attach_root: "root (attach k v p s) = root s"
  by (simp add: attach_def Node_init_def Let_def)

lemma attach_fresh: "fresh (attach k v p s) = Suc (fresh s)"
  by (simp add: attach_def Node_init_def Let_def)

lemma attach_shape:
  assumes ts: "tree_shape s (plug (f # c) Tip)" and pk: "path_ok (nodes s) k [f]"
  shows "tree_shape (attach k v (f_addr f) s) (plug (f # c) (Fork Tip (fresh s) Tip))"
proof -
  let ?h = "nodes s" and ?a = "fresh s" and ?p = "f_addr f"
  let ?h' = "nodes (attach k v ?p s)"
  from ts have rt: "root s = top_of (plug (f # c) Tip)"
    and sh0: "shaped ?h None (plug (f # c) Tip)"
    and d0: "distinct (inorder (plug (f # c) Tip))"
    and fr0: "list_all (\<lambda>a. a < ?a) (inorder (plug (f # c) Tip))"
    unfolding tree_shape_def by blast+
  have sh: "shaped_ctx ?h (f # c) None" using sh0 unfolding shaped_plug by simp
  have d: "distinct (before (f # c) @ after (f # c))" using d0 unfolding inorder_plug by simp
  have fr: "list_all (\<lambda>a. a < ?a) (before (f # c) @ after (f # c))"
    using fr0 unfolding inorder_plug by simp
  have pin: "?p \<in> set (before (f # c) @ after (f # c))" by (cases f) auto
  then have pa: "?p \<noteq> ?a" using fr by (auto simp: list_all_iff)
  note H = attach_nodes[OF pa, of k v]
  have old: "?h' b = ?h b" if "b \<in> set (before (f # c) @ after (f # c))" "b \<noteq> ?p" for b
  proof -
    have "b \<noteq> ?a" using that fr by (auto simp: list_all_iff)
    then show ?thesis using that by (simp add: H)
  qed
  have ctx: "shaped_ctx ?h' (f # c) (Some ?a)"
  proof (cases f)
    case (InLeft p sib)
    then have kp: "k < key (?h p)" using pk by simp
    have "shaped ?h' (Some p) sib = shaped ?h (Some p) sib"
      using d InLeft by (intro shaped_cong old) auto
    moreover have "shaped_ctx ?h' c (Some p) = shaped_ctx ?h c (Some p)"
    proof (rule shaped_ctx_cong)
      fix b assume "b \<in> set (before c) \<union> set (after c)"
      then show "?h' b = ?h b" using d InLeft by (intro old) auto
    qed
    moreover have "p \<noteq> ?a" using pa InLeft by simp
    then have "?h' p = (?h p)\<lparr>left := Some ?a\<rparr>" using kp InLeft by (simp add: attach_nodes)
    ultimately show ?thesis using sh InLeft by simp
  next
    case (InRight p sib)
    then have kp: "\<not> k < key (?h p)" using pk by simp
    have "shaped ?h' (Some p) sib = shaped ?h (Some p) sib"
      using d InRight by (intro shaped_cong old) auto
    moreover have "shaped_ctx ?h' c (Some p) = shaped_ctx ?h c (Some p)"
    proof (rule shaped_ctx_cong)
      fix b assume "b \<in> set (before c) \<union> set (after c)"
      then show "?h' b = ?h b" using d InRight by (intro old) auto
    qed
    moreover have "p \<noteq> ?a" using pa InRight by simp
    then have "?h' p = (?h p)\<lparr>right := Some ?a\<rparr>" using kp InRight by (simp add: attach_nodes)
    ultimately show ?thesis using sh InRight by simp
  qed
  have sub: "shaped ?h' (Some ?p) (Fork Tip ?a Tip)" using pa by (simp add: H)
  have 1: "shaped ?h' None (plug (f # c) (Fork Tip ?a Tip))"
    unfolding shaped_plug using ctx sub by simp
  have 2: "root (attach k v ?p s) = top_of (plug (f # c) (Fork Tip ?a Tip))"
    using rt top_plug_cons[of f c Tip] by (simp add: attach_root)
  have an: "?a \<notin> set (before (f # c) @ after (f # c))" using fr by (auto simp: list_all_iff)
  have 3: "distinct (inorder (plug (f # c) (Fork Tip ?a Tip)))"
    using d an unfolding inorder_plug by auto
  have 4: "list_all (\<lambda>a. a < Suc ?a) (inorder (plug (f # c) (Fork Tip ?a Tip)))"
    using fr unfolding inorder_plug by (auto simp: list_all_iff less_Suc_eq)
  show ?thesis unfolding tree_shape_def using 1 2 3 4 by (simp add: attach_fresh)
qed

lemma attach_old:
  assumes "tree_shape s (plug (f # c) Tip)" "b \<in> set (inorder (plug (f # c) Tip))"
  shows "key (nodes (attach k v (f_addr f) s) b) = key (nodes s b)"
    and "val (nodes (attach k v (f_addr f) s) b) = val (nodes s b)"
proof -
  from assms have fr: "list_all (\<lambda>a. a < fresh s) (inorder (plug (f # c) Tip))"
    unfolding tree_shape_def by blast
  have pin: "f_addr f \<in> set (inorder (plug (f # c) Tip))"
    unfolding inorder_plug by (cases f) auto
  have pa: "f_addr f \<noteq> fresh s" "b \<noteq> fresh s" using fr pin assms(2) by (auto simp: list_all_iff)
  show "key (nodes (attach k v (f_addr f) s) b) = key (nodes s b)"
    and "val (nodes (attach k v (f_addr f) s) b) = val (nodes s b)"
    using pa by (simp_all add: attach_nodes)
qed

lemma attach_new:
  assumes "tree_shape s (plug (f # c) Tip)"
  shows "key (nodes (attach k v (f_addr f) s) (fresh s)) = k"
    and "val (nodes (attach k v (f_addr f) s) (fresh s)) = v"
proof -
  from assms have fr: "list_all (\<lambda>a. a < fresh s) (inorder (plug (f # c) Tip))"
    unfolding tree_shape_def by blast
  have pin: "f_addr f \<in> set (inorder (plug (f # c) Tip))"
    unfolding inorder_plug by (cases f) auto
  have pa: "f_addr f \<noteq> fresh s" using fr pin by (auto simp: list_all_iff)
  show "key (nodes (attach k v (f_addr f) s) (fresh s)) = k"
    and "val (nodes (attach k v (f_addr f) s) (fresh s)) = v"
    using pa by (simp_all add: attach_nodes)
qed

lemma set_val_shape: "tree_shape (set_val a v s) t = tree_shape s t"
proof -
  have "shaped (nodes (set_val a v s)) None t = shaped (nodes s) None t"
    by (rule shaped_links_cong) simp
  then show ?thesis by (simp add: tree_shape_def)
qed

subsection \<open>Insert and search on a well-formed tree\<close>


lemma tree_shapeD:
  assumes "tree_shape s t"
  shows "root s = top_of t" "shaped (nodes s) None t" "distinct (inorder t)"
    "list_all (\<lambda>a. a < fresh s) (inorder t)"
  using assms unfolding tree_shape_def by blast+

lemma descend_Nil_Tip: "descend h k [] t = ([], Tip) \<Longrightarrow> t = Tip"
  using plug_descend[of h k "[]" t] by simp

lemma top_plug_Some: "top_of t \<noteq> None \<Longrightarrow> top_of (plug c t) \<noteq> None"
  by (induction c arbitrary: t) auto

lemma path_ok_head: "path_ok h k (f # c) \<Longrightarrow> path_ok h k [f]"
  by (cases f) auto

lemma search_present:
  assumes ts: "tree_shape s t" and de: "descend (nodes s) k [] t = (c, Fork l a r)"
  shows "\<exists>n l' r'. n \<le> length c \<and> search k s = Some (Some a, (splay_step a ^^ n) s) \<and>
           splay a s = Some ((splay_step a ^^ n) s) \<and>
           tree_shape ((splay_step a ^^ n) s) (Fork l' a r') \<and>
           inorder (Fork l' a r') = inorder t"
proof -
  have pl: "plug c (Fork l a r) = t" using plug_descend[of "nodes s" k "[]" t] de by simp
  then have "tree_shape s (plug c (Fork l a r))" using ts by simp
  from splay_shape[OF this] obtain n l' r' where
    n: "n \<le> length c" "splay a s = Some ((splay_step a ^^ n) s)"
       "tree_shape ((splay_step a ^^ n) s) (Fork l' a r')"
       "inorder (Fork l' a r') = inorder (plug c (Fork l a r))"
    by blast
  have "search k s = search_end k s (descend (nodes s) k [] t)"
    unfolding search_def using search_loop_descend[of s "[]" t k] tree_shapeD(1,2)[OF ts] by simp
  then have "search k s = Some (Some a, (splay_step a ^^ n) s)"
    using de n(2) by (simp add: search_end_def)
  then show ?thesis using n pl by blast
qed

lemma search_absent:
  assumes ts: "tree_shape s t" and de: "descend (nodes s) k [] t = (f # c, Tip)"
  shows "\<exists>n l' r'. n \<le> length c \<and> search k s = Some (None, (splay_step (f_addr f) ^^ n) s) \<and>
           splay (f_addr f) s = Some ((splay_step (f_addr f) ^^ n) s) \<and>
           tree_shape ((splay_step (f_addr f) ^^ n) s) (Fork l' (f_addr f) r') \<and>
           inorder (Fork l' (f_addr f) r') = inorder t"
proof -
  obtain pl pr where pf: "fill1 f Tip = Fork pl (f_addr f) pr" using fill1_Fork by blast
  have pl: "plug c (Fork pl (f_addr f) pr) = t"
    using plug_descend[of "nodes s" k "[]" t] de pf by simp
  then have "tree_shape s (plug c (Fork pl (f_addr f) pr))" using ts by simp
  from splay_shape[OF this] obtain n l' r' where
    n: "n \<le> length c" "splay (f_addr f) s = Some ((splay_step (f_addr f) ^^ n) s)"
       "tree_shape ((splay_step (f_addr f) ^^ n) s) (Fork l' (f_addr f) r')"
       "inorder (Fork l' (f_addr f) r') = inorder (plug c (Fork pl (f_addr f) pr))"
    by blast
  have "search k s = search_end k s (descend (nodes s) k [] t)"
    unfolding search_def using search_loop_descend[of s "[]" t k] tree_shapeD(1,2)[OF ts] by simp
  then have "search k s = Some (None, (splay_step (f_addr f) ^^ n) s)"
    using de n(2) by (simp add: search_end_def)
  then show ?thesis using n pl by blast
qed

lemma search_empty: "root s = None \<Longrightarrow> search k s = Some (None, s)"
  unfolding search_def by (subst search_loop.simps) simp

lemma insert_present:
  assumes ts: "tree_shape s t" and de: "descend (nodes s) k [] t = (c, Fork l a r)"
  shows "\<exists>n l' r'. n \<le> length c \<and>
           insert_tree k v s = Some (Inr ((splay_step a ^^ n) (set_val a v s))) \<and>
           splay a (set_val a v s) = Some ((splay_step a ^^ n) (set_val a v s)) \<and>
           tree_shape ((splay_step a ^^ n) (set_val a v s)) (Fork l' a r') \<and>
           inorder (Fork l' a r') = inorder t"
proof -
  have pl: "plug c (Fork l a r) = t" using plug_descend[of "nodes s" k "[]" t] de by simp
  then have "tree_shape (set_val a v s) (plug c (Fork l a r))" using ts by (simp add: set_val_shape)
  from splay_shape[OF this] obtain n l' r' where
    n: "n \<le> length c" "splay a (set_val a v s) = Some ((splay_step a ^^ n) (set_val a v s))"
       "tree_shape ((splay_step a ^^ n) (set_val a v s)) (Fork l' a r')"
       "inorder (Fork l' a r') = inorder (plug c (Fork l a r))"
    by blast
  have "root s \<noteq> None"
    using tree_shapeD(1)[OF ts] top_plug_Some[of "Fork l a r" c] unfolding pl by simp
  then obtain r0 where "root s = Some r0" by auto
  then have "insert_tree k v s = insert_loop k v (root s) None s"
    by (simp add: insert_tree_def)
  also have "\<dots> = insert_end k v s (descend (nodes s) k [] t)"
    using insert_loop_descend[of s "[]" t k v] tree_shapeD(1,2)[OF ts] by simp
  finally have "insert_tree k v s = insert_end k v s (descend (nodes s) k [] t)" .
  then have "insert_tree k v s = Some (Inr ((splay_step a ^^ n) (set_val a v s)))"
    using de n(2) by (simp add: insert_end_def)
  then show ?thesis using n pl by blast
qed

lemma insert_absent:
  assumes ts: "tree_shape s t" and de: "descend (nodes s) k [] t = (f # c, Tip)"
  shows "\<exists>n l' r'. n \<le> Suc (length c) \<and>
           insert_tree k v s =
             Some (Inr ((splay_step (fresh s) ^^ n) (attach k v (f_addr f) s))) \<and>
           splay (fresh s) (attach k v (f_addr f) s) =
             Some ((splay_step (fresh s) ^^ n) (attach k v (f_addr f) s)) \<and>
           tree_shape ((splay_step (fresh s) ^^ n) (attach k v (f_addr f) s))
             (Fork l' (fresh s) r') \<and>
           inorder (Fork l' (fresh s) r') = before (f # c) @ fresh s # after (f # c) \<and>
           inorder t = before (f # c) @ after (f # c)"
proof -
  have pl: "plug (f # c) Tip = t" using plug_descend[of "nodes s" k "[]" t] de by simp
  then have t0: "tree_shape s (plug (f # c) Tip)" using ts by simp
  have "path_ok (nodes s) k (fst (descend (nodes s) k [] t))"
    by (rule path_ok_descend) simp
  then have "path_ok (nodes s) k [f]" using de path_ok_head by simp
  from attach_shape[OF t0 this]
  have "tree_shape (attach k v (f_addr f) s) (plug (f # c) (Fork Tip (fresh s) Tip))" .
  from splay_shape[OF this] obtain n l' r' where
    n: "n \<le> length (f # c)"
       "splay (fresh s) (attach k v (f_addr f) s)
          = Some ((splay_step (fresh s) ^^ n) (attach k v (f_addr f) s))"
       "tree_shape ((splay_step (fresh s) ^^ n) (attach k v (f_addr f) s)) (Fork l' (fresh s) r')"
       "inorder (Fork l' (fresh s) r') = inorder (plug (f # c) (Fork Tip (fresh s) Tip))"
    by blast
  have io: "inorder (plug (f # c) (Fork Tip (fresh s) Tip)) = before (f # c) @ fresh s # after (f # c)"
    unfolding inorder_plug by simp
  have it: "inorder t = before (f # c) @ after (f # c)"
    unfolding pl[symmetric] inorder_plug by simp
  have "top_of (plug c (fill1 f Tip)) \<noteq> None" by (rule top_plug_Some) simp
  then have "top_of t \<noteq> None" using pl by simp
  then have "root s \<noteq> None" using tree_shapeD(1)[OF ts] by simp
  then obtain r0 where "root s = Some r0" by auto
  then have "insert_tree k v s = insert_loop k v (root s) None s"
    by (simp add: insert_tree_def)
  also have "\<dots> = insert_end k v s (descend (nodes s) k [] t)"
    using insert_loop_descend[of s "[]" t k v] tree_shapeD(1,2)[OF ts] by simp
  finally have "insert_tree k v s = insert_end k v s (descend (nodes s) k [] t)" .
  then have "insert_tree k v s = Some (Inr ((splay_step (fresh s) ^^ n) (attach k v (f_addr f) s)))"
    using de n(2) by (simp add: insert_end_def)
  then show ?thesis using n io it by auto
qed

lemma insert_empty:
  assumes "root s = None"
  shows "insert_tree k v s = Some (Inr ((snd (Node_init k v s))\<lparr>root := Some (fresh s)\<rparr>))"
    and "tree_shape ((snd (Node_init k v s))\<lparr>root := Some (fresh s)\<rparr>) (Fork Tip (fresh s) Tip)"
  using assms by (simp_all add: insert_tree_def Node_init_def tree_shape_def)

subsection \<open>Ordered keys and parent links\<close>


lemma bst_keys_sorted:
  "bst_keys h t \<longleftrightarrow> sorted_wrt (<) (map (\<lambda>a. key (h a)) (inorder t))"
proof (induction t)
  case Tip
  then show ?case by simp
next
  case (Fork l a r)
  have "(\<forall>x\<in>set (inorder l). \<forall>y\<in>set (inorder r). key (h x) < key (h y))"
    if "\<forall>b\<in>set (inorder l). key (h b) < key (h a)" "\<forall>b\<in>set (inorder r). key (h a) < key (h b)"
    using that by fastforce
  then show ?case using Fork
    by (auto simp: sorted_wrt_append list_all_iff)
qed

lemma keys_of_sorted: "bst_keys (nodes s) t \<longleftrightarrow> sorted_wrt (<) (keys_of s t)"
  by (simp add: bst_keys_sorted keys_of_def)

lemma descend_present:
  "bst_keys h t \<Longrightarrow> k \<in> (\<lambda>a. key (h a)) ` set (inorder t) \<Longrightarrow>
   \<exists>l a r. snd (descend h k c t) = Fork l a r"
proof (induction t arbitrary: c)
  case Tip
  then show ?case by simp
next
  case (Fork l a r)
  from Fork.prems(2) obtain b where
    b: "b \<in> set (inorder l) \<or> b = a \<or> b \<in> set (inorder r)" "k = key (h b)" by auto
  have lo: "\<And>x. x \<in> set (inorder l) \<Longrightarrow> key (h x) < key (h a)"
    and hi: "\<And>x. x \<in> set (inorder r) \<Longrightarrow> key (h a) < key (h x)"
    and bl: "bst_keys h l" and br: "bst_keys h r"
    using Fork.prems(1) by (simp_all add: list_all_iff)
  show ?case
  proof (cases "k < key (h a)")
    case True
    have "b \<in> set (inorder l)"
    proof (rule ccontr)
      assume "b \<notin> set (inorder l)"
      then have "b = a \<or> b \<in> set (inorder r)" using b(1) by blast
      then have "key (h a) \<le> key (h b)" using hi[of b] by auto
      then show False using True b(2) by simp
    qed
    then have "k \<in> (\<lambda>a. key (h a)) ` set (inorder l)" using b(2) by blast
    then show ?thesis using Fork.IH(1)[OF bl, of "InLeft a r # c"] True by simp
  next
    case False
    show ?thesis
    proof (cases "key (h a) < k")
      case True
      have "b \<in> set (inorder r)"
      proof (rule ccontr)
        assume "b \<notin> set (inorder r)"
        then have "b = a \<or> b \<in> set (inorder l)" using b(1) by blast
        then have "key (h b) \<le> key (h a)" using lo[of b] by auto
        then show False using True b(2) by simp
      qed
      then have "k \<in> (\<lambda>a. key (h a)) ` set (inorder r)" using b(2) by blast
      then show ?thesis using Fork.IH(2)[OF br, of "InRight a l # c"] True False by simp
    next
      case False
      then show ?thesis using \<open>\<not> k < key (h a)\<close> by simp
    qed
  qed
qed

lemma descend_absent:
  "k \<notin> (\<lambda>a. key (h a)) ` set (inorder t) \<Longrightarrow> snd (descend h k c t) = Tip"
  by (induction t arbitrary: c) auto

lemma descend_bounds:
  assumes "sorted_wrt (<) (map (\<lambda>a. key (h a)) (before c @ inorder t @ after c))"
    and "\<forall>b\<in>set (before c). key (h b) < k" and "\<forall>b\<in>set (after c). k < key (h b)"
  shows "(\<forall>b\<in>set (before (fst (descend h k c t))). key (h b) < k) \<and>
         (\<forall>b\<in>set (after (fst (descend h k c t))). k < key (h b))"
  using assms
proof (induction t arbitrary: c)
  case Tip
  have "descend h k c Tip = (c, Tip)" by simp
  then show ?case using Tip.prems(2,3) by (simp only: fst_conv) 
next
  case (Fork l a r)
  let ?K = "\<lambda>a. key (h a)"
  define xs where "xs = map ?K (before c @ inorder l)"
  define ys where "ys = map ?K (inorder r @ after c)"
  have e: "map ?K (before c @ inorder (Fork l a r) @ after c) = xs @ key (h a) # ys"
    by (simp add: xs_def ys_def)
  have S: "sorted_wrt (<) (xs @ key (h a) # ys)" using Fork.prems(1) unfolding e .
  have "\<forall>x\<in>set xs. x < key (h a)" "\<forall>y\<in>set ys. key (h a) < y"
    using S by (auto simp: sorted_wrt_append)
  then have hi: "\<And>y. y \<in> set (inorder r) \<union> set (after c) \<Longrightarrow> key (h a) < key (h y)"
    and lo: "\<And>y. y \<in> set (before c) \<union> set (inorder l) \<Longrightarrow> key (h y) < key (h a)"
    unfolding xs_def ys_def by auto
  show ?case
  proof (cases "k < key (h a)")
    case True
    have A: "\<forall>b\<in>set (after (InLeft a r # c)). k < key (h b)"
    proof
      fix b assume "b \<in> set (after (InLeft a r # c))"
      then have "b = a \<or> b \<in> set (inorder r) \<union> set (after c)" by auto
      then show "k < key (h b)" using True hi[of b] by auto
    qed
    have B: "sorted_wrt (<) (map ?K
        (before (InLeft a r # c) @ inorder l @ after (InLeft a r # c)))"
      using Fork.prems(1) by simp
    have C: "\<forall>b\<in>set (before (InLeft a r # c)). key (h b) < k"
      using Fork.prems(2) by simp
    have "descend h k c (Fork l a r) = descend h k (InLeft a r # c) l" using True by simp
    then show ?thesis using Fork.IH(1)[OF B C A] by (simp only:)
  next
    case False
    show ?thesis
    proof (cases "key (h a) < k")
      case True
      have A: "\<forall>b\<in>set (before (InRight a l # c)). key (h b) < k"
      proof
        fix b assume "b \<in> set (before (InRight a l # c))"
        then have "b = a \<or> b \<in> set (before c) \<union> set (inorder l)" by auto
        then show "key (h b) < k" using True lo[of b] by auto
      qed
      have B: "sorted_wrt (<) (map ?K
          (before (InRight a l # c) @ inorder r @ after (InRight a l # c)))"
        using Fork.prems(1) by simp
      have C: "\<forall>b\<in>set (after (InRight a l # c)). k < key (h b)"
        using Fork.prems(3) by simp
      have "descend h k c (Fork l a r) = descend h k (InRight a l # c) r"
        using True False by simp
      then show ?thesis using Fork.IH(2)[OF B A C] by (simp only:)
    next
      case False
      then have "descend h k c (Fork l a r) = (c, Fork l a r)"
        using \<open>\<not> k < key (h a)\<close> by simp
      then show ?thesis using Fork.prems(2,3) by (simp only: fst_conv)
    qed
  qed
qed

lemma sorted_insert_mid:
  assumes "sorted_wrt (<) (xs @ ys)" "\<forall>x\<in>set xs. x < (k::int)" "\<forall>y\<in>set ys. k < y"
  shows "sorted_wrt (<) (xs @ k # ys)"
  using assms by (auto simp: sorted_wrt_append)

lemma top_plug_mem:
  "c \<noteq> [] \<Longrightarrow> \<exists>a. top_of (plug c t) = Some a \<and> a \<in> set (before c) \<union> set (after c)"
proof (induction c arbitrary: t)
  case Nil
  then show ?case by simp
next
  case (Cons f c)
  show ?case
  proof (cases "c = []")
    case True
    then show ?thesis by (cases f) auto
  next
    case False
    from Cons.IH[OF False, of "fill1 f t"] show ?thesis by (cases f) auto
  qed
qed

lemma plug_append: "plug (c @ c') t = plug c' (plug c t)"
  by (induction c arbitrary: t) auto

lemma focus_exists:
  "x \<in> set (inorder t) \<Longrightarrow> \<exists>c l r. t = plug c (Fork l x r)"
proof (induction t)
  case Tip
  then show ?case by simp
next
  case (Fork l a r)
  consider "x = a" | "x \<in> set (inorder l)" | "x \<in> set (inorder r)" using Fork.prems by auto
  then show ?case
  proof cases
    case 1
    then have "Fork l a r = plug [] (Fork l x r)" by simp
    then show ?thesis by blast
  next
    case 2
    then obtain c l' r' where "l = plug c (Fork l' x r')" using Fork.IH(1) by blast
    then have "Fork l a r = plug (c @ [InLeft a r]) (Fork l' x r')" by (simp add: plug_append)
    then show ?thesis by blast
  next
    case 3
    then obtain c l' r' where "r = plug c (Fork l' x r')" using Fork.IH(2) by blast
    then have "Fork l a r = plug (c @ [InRight a l]) (Fork l' x r')" by (simp add: plug_append)
    then show ?thesis by blast
  qed
qed

lemma parent_ok_focus:
  assumes "tree_shape s (plug c (Fork l x r))"
  shows "parent_ok s x"
proof (cases c)
  case Nil
  then show ?thesis using assms by (simp add: parent_ok_def tree_shape_def)
next
  case (Cons f c')
  let ?t = "plug (f # c') (Fork l x r)"
  have ts: "tree_shape s ?t" using assms Cons by simp
  have d: "distinct (before (f # c') @ inorder l @ x # inorder r @ after (f # c'))"
    using tree_shapeD(3)[OF ts] unfolding inorder_plug by simp
  obtain a where a: "top_of ?t = Some a" "a \<in> set (before (f # c')) \<union> set (after (f # c'))"
    using top_plug_mem[of "f # c'" "Fork l x r"] by blast
  have "a \<noteq> x" using a(2) d by auto
  then have nr: "root s \<noteq> Some x" using tree_shapeD(1)[OF ts] a(1) by simp
  have px: "parent (nodes s x) = Some (f_addr f)" using shape_focus[OF ts] by simp
  have sc: "shaped_ctx (nodes s) (f # c') (Some x)"
    using tree_shapeD(2)[OF ts] unfolding shaped_plug by simp
  have "(left (nodes s (f_addr f)) = Some x) \<noteq> (right (nodes s (f_addr f)) = Some x)"
  proof (cases f)
    case (InLeft p sib)
    then have "x \<notin> set (inorder sib)" using d by auto
    then have "top_of sib \<noteq> Some x" using top_of_mem by blast
    then show ?thesis using sc InLeft by simp
  next
    case (InRight p sib)
    then have "x \<notin> set (inorder sib)" using d by auto
    then have "top_of sib \<noteq> Some x" using top_of_mem by blast
    then show ?thesis using sc InRight by simp
  qed
  then show ?thesis using nr px by (simp add: parent_ok_def)
qed

lemma child_ok_focus:
  assumes "tree_shape s (plug c (Fork l x r))"
  shows "child_ok s x"
proof -
  have sh: "shaped (nodes s) (ctx_top c) (Fork l x r)"
    using tree_shapeD(2)[OF assms] unfolding shaped_plug by simp
  have "parent (nodes s a) = Some x" if "top_of l = Some a" for a
    using sh that by (cases l) auto
  moreover have "parent (nodes s a) = Some x" if "top_of r = Some a" for a
    using sh that by (cases r) auto
  ultimately show ?thesis using sh by (auto simp: child_ok_def split: option.splits)
qed

lemma tree_shape_links:
  assumes "tree_shape s t"
  shows "list_all (parent_ok s) (inorder t) \<and> list_all (child_ok s) (inorder t)"
proof -
  have "parent_ok s x \<and> child_ok s x" if xin: "x \<in> set (inorder t)" for x
  proof -
    obtain c l r where "t = plug c (Fork l x r)" using focus_exists[OF xin] by blast
    then show ?thesis using assms parent_ok_focus child_ok_focus by blast
  qed
  then show ?thesis by (simp add: list_all_iff)
qed

subsection \<open>What insert and search return\<close>


lemma shaped_unique:
  "shaped h par t \<Longrightarrow> shaped h par' t' \<Longrightarrow> top_of t = top_of t' \<Longrightarrow> t = t'"
proof (induction t arbitrary: t' par par')
  case Tip
  then show ?case by (cases t') auto
next
  case (Fork l a r)
  then obtain l' r' where t': "t' = Fork l' a r'" by (cases t') auto
  have "l = l'" using Fork.IH(1)[of "Some a" "Some a" l'] Fork.prems t' by simp
  moreover have "r = r'" using Fork.IH(2)[of "Some a" "Some a" r'] Fork.prems t' by simp
  ultimately show ?case using t' by simp
qed

lemma tree_shape_unique: "tree_shape s t \<Longrightarrow> tree_shape s t' \<Longrightarrow> t = t'"
  using shaped_unique[of "nodes s" None t None t'] by (simp add: tree_shape_def)

lemma bst_transfer:
  assumes "inorder t' = inorder t" "\<And>b. b \<in> set (inorder t) \<Longrightarrow> key (h' b) = key (h b)"
  shows "bst_keys h' t' = bst_keys h t"
proof -
  have "map (\<lambda>a. key (h' a)) (inorder t) = map (\<lambda>a. key (h a)) (inorder t)"
    using assms(2) by (intro map_cong) auto
  then show ?thesis unfolding bst_keys_sorted assms(1) by (simp only:)
qed

lemma descend_in: "descend h k [] t = (c, Fork l a r) \<Longrightarrow> a \<in> set (inorder t)"
proof -
  assume "descend h k [] t = (c, Fork l a r)"
  then have "plug c (Fork l a r) = t" using plug_descend[of h k "[]" t] by simp
  then have "inorder t = before c @ inorder (Fork l a r) @ after c"
    using inorder_plug[of c "Fork l a r"] by simp
  then show ?thesis by simp
qed

lemma descend_last_in: "descend h k [] t = (f # c, Tip) \<Longrightarrow> f_addr f \<in> set (inorder t)"
proof -
  assume "descend h k [] t = (f # c, Tip)"
  then have "plug (f # c) Tip = t" using plug_descend[of h k "[]" t] by simp
  then have "inorder t = before (f # c) @ after (f # c)"
    using inorder_plug[of "f # c" Tip] by simp
  then show ?thesis by (cases f) auto
qed

lemma tree_shape_root: "tree_shape s (Fork l a r) \<Longrightarrow> root s = Some a"
  by (simp add: tree_shape_def)

lemma search_hit:
  assumes ts: "tree_shape s t" and de: "descend (nodes s) k [] t = (c, Fork l a r)"
  shows "\<exists>s' t'. search k s = Some (Some a, s') \<and> splay a s = Some s' \<and>
           tree_shape s' t' \<and> inorder t' = inorder t \<and> root s' = Some a \<and>
           fresh s' = fresh s \<and>
           (\<forall>b. key (nodes s' b) = key (nodes s b)) \<and>
           (\<forall>b. val (nodes s' b) = val (nodes s b)) \<and>
           a \<in> set (inorder t) \<and> key (nodes s a) = k"
proof -
  from search_present[OF ts de] obtain n l' r' where
    n: "search k s = Some (Some a, (splay_step a ^^ n) s)"
       "splay a s = Some ((splay_step a ^^ n) s)"
       "tree_shape ((splay_step a ^^ n) s) (Fork l' a r')"
       "inorder (Fork l' a r') = inorder t"
    by blast
  have "key (nodes s a) = k" using descend_key[of "nodes s" k "[]" t l a r] de by simp
  then show ?thesis
    using n tree_shape_root[OF n(3)] descend_in[OF de]
    by (intro exI[of _ "(splay_step a ^^ n) s"] exI[of _ "Fork l' a r'"])
       (simp add: splay_steps_key splay_steps_val splay_steps_fresh)
qed

lemma search_miss:
  assumes ts: "tree_shape s t" and de: "descend (nodes s) k [] t = (f # c, Tip)"
  shows "\<exists>s' t'. search k s = Some (None, s') \<and> splay (f_addr f) s = Some s' \<and>
           tree_shape s' t' \<and> inorder t' = inorder t \<and> root s' = Some (f_addr f) \<and>
           fresh s' = fresh s \<and>
           (\<forall>b. key (nodes s' b) = key (nodes s b)) \<and>
           (\<forall>b. val (nodes s' b) = val (nodes s b)) \<and>
           f_addr f \<in> set (inorder t)"
proof -
  from search_absent[OF ts de] obtain n l' r' where
    n: "search k s = Some (None, (splay_step (f_addr f) ^^ n) s)"
       "splay (f_addr f) s = Some ((splay_step (f_addr f) ^^ n) s)"
       "tree_shape ((splay_step (f_addr f) ^^ n) s) (Fork l' (f_addr f) r')"
       "inorder (Fork l' (f_addr f) r') = inorder t"
    by blast
  show ?thesis
    using n tree_shape_root[OF n(3)] descend_last_in[OF de]
    by (intro exI[of _ "(splay_step (f_addr f) ^^ n) s"] exI[of _ "Fork l' (f_addr f) r'"])
       (simp add: splay_steps_key splay_steps_val splay_steps_fresh)
qed

lemma insert_hit:
  assumes ts: "tree_shape s t" and de: "descend (nodes s) k [] t = (c, Fork l a r)"
  shows "\<exists>s' t'. insert_tree k v s = Some (Inr s') \<and> splay a (set_val a v s) = Some s' \<and>
           tree_shape s' t' \<and> inorder t' = inorder t \<and> root s' = Some a \<and>
           fresh s' = fresh s \<and>
           (\<forall>b. key (nodes s' b) = key (nodes s b)) \<and>
           val (nodes s' a) = v \<and>
           (\<forall>b. b \<noteq> a \<longrightarrow> val (nodes s' b) = val (nodes s b)) \<and>
           a \<in> set (inorder t) \<and> key (nodes s a) = k"
proof -
  from insert_present[OF ts de, of v] obtain n l' r' where
    n: "insert_tree k v s = Some (Inr ((splay_step a ^^ n) (set_val a v s)))"
       "splay a (set_val a v s) = Some ((splay_step a ^^ n) (set_val a v s))"
       "tree_shape ((splay_step a ^^ n) (set_val a v s)) (Fork l' a r')"
       "inorder (Fork l' a r') = inorder t"
    by blast
  have "key (nodes s a) = k" using descend_key[of "nodes s" k "[]" t l a r] de by simp
  then show ?thesis
    using n tree_shape_root[OF n(3)] descend_in[OF de]
    by (intro exI[of _ "(splay_step a ^^ n) (set_val a v s)"] exI[of _ "Fork l' a r'"])
       (simp add: splay_steps_key splay_steps_val splay_steps_fresh)
qed

lemma attach_links:
  assumes "p \<noteq> fresh s"
  shows "parent (nodes (attach k v p s) (fresh s)) = Some p"
    and "left (nodes (attach k v p s) p) = Some (fresh s) \<or>
         right (nodes (attach k v p s) p) = Some (fresh s)"
  using assms by (simp_all add: attach_nodes)

lemma insert_miss:
  assumes ts: "tree_shape s t" and de: "descend (nodes s) k [] t = (f # c, Tip)"
  shows "\<exists>s' t'. insert_tree k v s = Some (Inr s') \<and>
           splay (fresh s) (attach k v (f_addr f) s) = Some s' \<and>
           tree_shape s' t' \<and>
           inorder t' = before (f # c) @ fresh s # after (f # c) \<and>
           inorder t = before (f # c) @ after (f # c) \<and>
           root s' = Some (fresh s) \<and> fresh s' = Suc (fresh s) \<and>
           key (nodes s' (fresh s)) = k \<and> val (nodes s' (fresh s)) = v \<and>
           (\<forall>b\<in>set (inorder t). key (nodes s' b) = key (nodes s b)) \<and>
           (\<forall>b\<in>set (inorder t). val (nodes s' b) = val (nodes s b)) \<and>
           f_addr f \<in> set (inorder t) \<and> fresh s \<notin> set (inorder t) \<and>
           parent (nodes (attach k v (f_addr f) s) (fresh s)) = Some (f_addr f) \<and>
           (left (nodes (attach k v (f_addr f) s) (f_addr f)) = Some (fresh s) \<or>
            right (nodes (attach k v (f_addr f) s) (f_addr f)) = Some (fresh s))"
proof -
  let ?A = "attach k v (f_addr f) s"
  from insert_absent[OF ts de, of v] obtain n l' r' where
    n: "insert_tree k v s = Some (Inr ((splay_step (fresh s) ^^ n) ?A))"
       "splay (fresh s) ?A = Some ((splay_step (fresh s) ^^ n) ?A)"
       "tree_shape ((splay_step (fresh s) ^^ n) ?A) (Fork l' (fresh s) r')"
       "inorder (Fork l' (fresh s) r') = before (f # c) @ fresh s # after (f # c)"
       "inorder t = before (f # c) @ after (f # c)"
    by blast
  have pl: "plug (f # c) Tip = t" using plug_descend[of "nodes s" k "[]" t] de by simp
  then have t0: "tree_shape s (plug (f # c) Tip)" using ts by simp
  have pin: "f_addr f \<in> set (inorder t)" by (rule descend_last_in[OF de])
  have fr: "list_all (\<lambda>a. a < fresh s) (inorder t)" by (rule tree_shapeD(4)[OF ts])
  then have nin: "fresh s \<notin> set (inorder t)" by (auto simp: list_all_iff)
  then have pa: "f_addr f \<noteq> fresh s" using pin by auto
  have old: "key (nodes ?A b) = key (nodes s b) \<and> val (nodes ?A b) = val (nodes s b)"
    if "b \<in> set (inorder t)" for b
    using attach_old[OF t0, of b k v] that pl by simp
  have new: "key (nodes ?A (fresh s)) = k" "val (nodes ?A (fresh s)) = v"
    using attach_new[OF t0, of k v] by simp_all
  show ?thesis
    using n tree_shape_root[OF n(3)] pin nin old new attach_links[OF pa, of k v]
    by (intro exI[of _ "(splay_step (fresh s) ^^ n) ?A"] exI[of _ "Fork l' (fresh s) r'"])
       (simp add: splay_steps_key splay_steps_val splay_steps_fresh attach_fresh)
qed

lemma insert_miss_bst:
  assumes ts: "tree_shape s t" and de: "descend (nodes s) k [] t = (f # c, Tip)"
    and bst: "bst_keys (nodes s) t" and t': "inorder t' = before (f # c) @ fresh s # after (f # c)"
    and k: "key (h' (fresh s)) = k"
    and old: "\<forall>b\<in>set (inorder t). key (h' b) = key (nodes s b)"
  shows "bst_keys h' t'"
proof -
  let ?K = "\<lambda>a. key (nodes s a)"
  have pl: "plug (f # c) Tip = t" using plug_descend[of "nodes s" k "[]" t] de by simp
  have it: "inorder t = before (f # c) @ after (f # c)"
    unfolding pl[symmetric] inorder_plug by simp
  have srt: "sorted_wrt (<) (map ?K (inorder t))" using bst by (simp add: bst_keys_sorted)
  have "sorted_wrt (<) (map ?K (before [] @ inorder t @ after []))" using srt by simp
  from descend_bounds[OF this, of k] de
  have b: "\<forall>b\<in>set (before (f # c)). ?K b < k" "\<forall>b\<in>set (after (f # c)). k < ?K b"
    by simp_all
  have e1: "map (\<lambda>a. key (h' a)) (before (f # c)) = map ?K (before (f # c))"
    using old it by (intro map_cong) auto
  have e2: "map (\<lambda>a. key (h' a)) (after (f # c)) = map ?K (after (f # c))"
    using old it by (intro map_cong) auto
  have e3: "map (\<lambda>a. key (h' a)) (inorder t')
      = map ?K (before (f # c)) @ k # map ?K (after (f # c))"
    unfolding t' by (simp only: map_append list.map e1 e2 k)
  have "sorted_wrt (<) (map ?K (before (f # c)) @ k # map ?K (after (f # c)))"
    using srt b unfolding it by (intro sorted_insert_mid) auto
  then have "sorted_wrt (<) (map (\<lambda>a. key (h' a)) (inorder t'))"
    by (simp only: e3)
  then show ?thesis by (simp add: bst_keys_sorted)
qed

subsection \<open>Summaries for every key\<close>


lemma example_tree_shape: "tree_shape example_tree example_shape"
  by (simp add: example_tree_def example_shape_def tree_shape_def)

lemma example_tree_bst: "bst_keys (nodes example_tree) example_shape"
  by (simp add: example_tree_def example_shape_def)

lemma example_keys: "keys_of example_tree example_shape = [0, 1, 2, 3]"
  by (simp add: example_tree_def example_shape_def keys_of_def)

lemma empty_tree_shape: "tree_shape empty_tree Tip"
  by (simp add: empty_tree_def tree_shape_def)

lemma sorted_lt_distinct: "sorted_wrt (<) (xs :: int list) \<Longrightarrow> distinct xs"
  by (induction xs) auto

lemma keys_of_cong:
  assumes "inorder t' = inorder t" "\<forall>b\<in>set (inorder t). key (nodes s' b) = key (nodes s b)"
  shows "keys_of s' t' = keys_of s t"
  unfolding keys_of_def assms(1) using assms(2) by (intro map_cong) auto

lemma descend_cases:
  obtains (hit) c l a r where "descend h k [] t = (c, Fork l a r)"
  | (miss) f c where "descend h k [] t = (f # c, Tip)"
  | (empty) "descend h k [] t = ([], Tip)" "t = Tip"
proof (cases "descend h k [] t")
  case (Pair c u)
  show ?thesis
  proof (cases u)
    case Tip
    show ?thesis
    proof (cases c)
      case Nil
      then show ?thesis using Pair Tip empty descend_Nil_Tip by auto
    next
      case (Cons f c')
      then show ?thesis using Pair Tip miss by auto
    qed
  next
    case (Fork l a r)
    then show ?thesis using Pair hit by auto
  qed
qed

lemma key_in_keys_of: "k \<in> set (keys_of s t) \<longleftrightarrow> k \<in> (\<lambda>a. key (nodes s a)) ` set (inorder t)"
  by (simp add: keys_of_def)

lemma descend_hit_iff:
  assumes "bst_keys (nodes s) t"
  shows "k \<in> set (keys_of s t) \<longleftrightarrow> (\<exists>c l a r. descend (nodes s) k [] t = (c, Fork l a r))"
proof
  assume "k \<in> set (keys_of s t)"
  then have "\<exists>l a r. snd (descend (nodes s) k [] t) = Fork l a r"
    using descend_present[OF assms, of k "[]"] by (simp add: key_in_keys_of)
  then show "\<exists>c l a r. descend (nodes s) k [] t = (c, Fork l a r)"
    by (cases "descend (nodes s) k [] t") auto
next
  assume "\<exists>c l a r. descend (nodes s) k [] t = (c, Fork l a r)"
  then obtain c l a r where de: "descend (nodes s) k [] t = (c, Fork l a r)" by blast
  have "key (nodes s a) = k" using descend_key[of "nodes s" k "[]" t l a r] de by simp
  then show "k \<in> set (keys_of s t)" using descend_in[OF de] by (auto simp: key_in_keys_of)
qed


lemma insert_total:
  assumes ts: "tree_shape s t"
  shows "\<exists>s' t' a. insert_tree k v s = Some (Inr s') \<and> tree_shape s' t' \<and> root s' = Some a \<and>
     key (nodes s' a) = k \<and> val (nodes s' a) = v \<and>
     (bst_keys (nodes s) t \<longrightarrow> bst_keys (nodes s') t') \<and>
     (\<forall>b\<in>set (inorder t). key (nodes s' b) = key (nodes s b)) \<and>
     (\<forall>b\<in>set (inorder t). b \<noteq> a \<longrightarrow> val (nodes s' b) = val (nodes s b)) \<and>
     (case descend (nodes s) k [] t of
        (c, Fork l x r) \<Rightarrow>
          a = x \<and> a \<in> set (inorder t) \<and> key (nodes s a) = k \<and>
          splay a (set_val a v s) = Some s' \<and> inorder t' = inorder t \<and> fresh s' = fresh s
      | (c, Tip) \<Rightarrow>
          a = fresh s \<and> fresh s' = Suc (fresh s) \<and> a \<notin> set (inorder t) \<and>
          set (inorder t') = insert a (set (inorder t)) \<and>
          length (inorder t') = Suc (length (inorder t)) \<and>
          (case ctx_top c of
             None \<Rightarrow> t = Tip \<and> t' = Fork Tip a Tip
           | Some p \<Rightarrow>
               p \<in> set (inorder t) \<and> splay a (attach k v p s) = Some s' \<and>
               parent (nodes (attach k v p s) a) = Some p \<and>
               (left (nodes (attach k v p s) p) = Some a \<or>
                right (nodes (attach k v p s) p) = Some a)))"
proof (cases rule: descend_cases[of "nodes s" k t])
  case (hit c l a r)
  from insert_hit[OF ts hit, of v] obtain s' t' where
    h: "insert_tree k v s = Some (Inr s')" "splay a (set_val a v s) = Some s'"
       "tree_shape s' t'" "inorder t' = inorder t" "root s' = Some a" "fresh s' = fresh s"
       "\<forall>b. key (nodes s' b) = key (nodes s b)" "val (nodes s' a) = v"
       "\<forall>b. b \<noteq> a \<longrightarrow> val (nodes s' b) = val (nodes s b)"
       "a \<in> set (inorder t)" "key (nodes s a) = k"
    by blast
  have "bst_keys (nodes s') t' = bst_keys (nodes s) t"
    using h(4,7) by (intro bst_transfer) auto
  then show ?thesis
    using h hit by (intro exI[of _ s'] exI[of _ t'] exI[of _ a]) simp
next
  case (miss f c)
  let ?a = "fresh s"
  from insert_miss[OF ts miss, of v] obtain s' t' where
    h: "insert_tree k v s = Some (Inr s')"
       "splay ?a (attach k v (f_addr f) s) = Some s'"
       "tree_shape s' t'"
       "inorder t' = before (f # c) @ ?a # after (f # c)"
       "inorder t = before (f # c) @ after (f # c)"
       "root s' = Some ?a" "fresh s' = Suc ?a"
       "key (nodes s' ?a) = k" "val (nodes s' ?a) = v"
       "\<forall>b\<in>set (inorder t). key (nodes s' b) = key (nodes s b)"
       "\<forall>b\<in>set (inorder t). val (nodes s' b) = val (nodes s b)"
       "f_addr f \<in> set (inorder t)" "?a \<notin> set (inorder t)"
       "parent (nodes (attach k v (f_addr f) s) ?a) = Some (f_addr f)"
       "left (nodes (attach k v (f_addr f) s) (f_addr f)) = Some ?a \<or>
        right (nodes (attach k v (f_addr f) s) (f_addr f)) = Some ?a"
    by blast
  have b: "bst_keys (nodes s) t \<longrightarrow> bst_keys (nodes s') t'"
    using insert_miss_bst[OF ts miss _ h(4) h(8) h(10)] by blast
  have se: "set (inorder t') = insert ?a (set (inorder t))"
    and le: "length (inorder t') = Suc (length (inorder t))"
    unfolding h(4) h(5) by auto
  show ?thesis
    using h(1,2,3,6,7,8,9,10,11,12,13,14,15) b se le miss
    by (intro exI[of _ s'] exI[of _ t'] exI[of _ ?a]) simp
next
  case empty
  let ?a = "fresh s"
  let ?s' = "(snd (Node_init k v s))\<lparr>root := Some ?a\<rparr>"
  have r: "root s = None" using tree_shapeD(1)[OF ts] empty(2) by simp
  note ie = insert_empty[OF r, of k v]
  show ?thesis
    using ie empty
    by (intro exI[of _ ?s'] exI[of _ "Fork Tip ?a Tip"] exI[of _ ?a])
       (simp add: Node_init_def)
qed

lemma search_total:
  assumes ts: "tree_shape s t"
  shows "\<exists>res s' t'. search k s = Some (res, s') \<and> tree_shape s' t' \<and>
     inorder t' = inorder t \<and> fresh s' = fresh s \<and>
     (\<forall>b. key (nodes s' b) = key (nodes s b)) \<and>
     (\<forall>b. val (nodes s' b) = val (nodes s b)) \<and>
     (case descend (nodes s) k [] t of
        (c, Fork l x r) \<Rightarrow>
          res = Some x \<and> x \<in> set (inorder t) \<and> key (nodes s x) = k \<and>
          root s' = Some x \<and> splay x s = Some s'
      | (c, Tip) \<Rightarrow>
          res = None \<and>
          (case ctx_top c of
             None \<Rightarrow> t = Tip \<and> s' = s
           | Some p \<Rightarrow> p \<in> set (inorder t) \<and> splay p s = Some s' \<and> root s' = Some p))"
proof (cases rule: descend_cases[of "nodes s" k t])
  case (hit c l a r)
  from search_hit[OF ts hit] obtain s' t' where
    h: "search k s = Some (Some a, s')" "splay a s = Some s'"
       "tree_shape s' t'" "inorder t' = inorder t" "root s' = Some a" "fresh s' = fresh s"
       "\<forall>b. key (nodes s' b) = key (nodes s b)" "\<forall>b. val (nodes s' b) = val (nodes s b)"
       "a \<in> set (inorder t)" "key (nodes s a) = k"
    by blast
  show ?thesis
    using h hit by (intro exI[of _ "Some a"] exI[of _ s'] exI[of _ t']) simp
next
  case (miss f c)
  from search_miss[OF ts miss] obtain s' t' where
    h: "search k s = Some (None, s')" "splay (f_addr f) s = Some s'"
       "tree_shape s' t'" "inorder t' = inorder t" "root s' = Some (f_addr f)"
       "fresh s' = fresh s"
       "\<forall>b. key (nodes s' b) = key (nodes s b)" "\<forall>b. val (nodes s' b) = val (nodes s b)"
       "f_addr f \<in> set (inorder t)"
    by blast
  show ?thesis
    using h miss by (intro exI[of _ None] exI[of _ s'] exI[of _ t']) simp
next
  case empty
  have r: "root s = None" using tree_shapeD(1)[OF ts] empty(2) by simp
  show ?thesis
    using search_empty[OF r, of k] ts empty
    by (intro exI[of _ None] exI[of _ s] exI[of _ t]) simp
qed


lemma filter_key_single:
  "(k, v) \<in> set xs \<Longrightarrow> distinct (map fst xs) \<Longrightarrow> filter (\<lambda>p. fst p = k) xs = [(k, v)]"
proof (induction xs)
  case Nil
  then show ?case by simp
next
  case (Cons x xs)
  show ?case
  proof (cases "x = (k, v)")
    case True
    then have "k \<notin> fst ` set xs" using Cons.prems(2) by auto
    then have "filter (\<lambda>p. fst p = k) xs = []" by (auto simp: filter_empty_conv)
    then show ?thesis using True by simp
  next
    case False
    then have in_xs: "(k, v) \<in> set xs" using Cons.prems(1) by auto
    then have "k \<in> fst ` set xs" by force
    then have "fst x \<noteq> k" using Cons.prems(2) by auto
    then show ?thesis using Cons.IH[OF in_xs] Cons.prems(2) by simp
  qed
qed


lemma built_well_formed: "built s \<Longrightarrow> \<exists>t. tree_shape s t \<and> bst_keys (nodes s) t"
proof (induction rule: built.induct)
  case (fresh_tree s)
  then have "tree_shape s Tip \<and> bst_keys (nodes s) Tip" by (simp add: tree_shape_def)
  then show ?case by blast
next
  case (after_insert s k v s')
  then obtain t where t: "tree_shape s t" "bst_keys (nodes s) t" by blast
  from insert_total[OF t(1), of k v] obtain s2 t2 where
    "insert_tree k v s = Some (Inr s2)" "tree_shape s2 t2"
    "bst_keys (nodes s) t \<longrightarrow> bst_keys (nodes s2) t2"
    by blast
  then show ?case using after_insert.hyps(2) t(2) by auto
next
  case (after_search s k r s')
  then obtain t where t: "tree_shape s t" "bst_keys (nodes s) t" by blast
  from search_total[OF t(1), of k] obtain r2 s2 t2 where
    h: "search k s = Some (r2, s2)" "tree_shape s2 t2" "inorder t2 = inorder t"
       "\<forall>b. key (nodes s2 b) = key (nodes s b)"
    by blast
  have "bst_keys (nodes s2) t2 = bst_keys (nodes s) t"
    using h(3,4) by (intro bst_transfer) auto
  then show ?case using after_search.hyps(2) t(2) h(1,2) by auto
qed

lemma rotate_root_noop: "parent (nodes s x) = None \<Longrightarrow> rotate_node x s = s"
  by (simp add: rotate_node_def)

lemma rotate_total:
  assumes "tree_shape s t" "x \<in> set (inorder t)"
  shows "\<exists>t'. tree_shape (rotate_node x s) t' \<and> inorder t' = inorder t"
proof -
  obtain c l r where t: "t = plug c (Fork l x r)" using focus_exists[OF assms(2)] by blast
  show ?thesis
  proof (cases c)
    case Nil
    then have "parent (nodes s x) = None" using shape_focus[of s c l x r] assms(1) t by simp
    then show ?thesis using assms(1) by (auto simp: rotate_root_noop)
  next
    case (Cons f c')
    then have "tree_shape s (plug (f # c') (Fork l x r))" using assms(1) t by simp
    from rotate_shape[OF this]
    have "tree_shape (rotate_node x s) (plug c' (rot f (Fork l x r)))" .
    moreover have "inorder (plug c' (rot f (Fork l x r))) = inorder t"
      unfolding t Cons by (rule inorder_rot_plug)
    ultimately show ?thesis by blast
  qed
qed

lemma depth_example: "depth (nodes example_tree) 0 = Some 2"
  by code_simp

subsection \<open>Traversal and reachable nodes\<close>


lemma traverse_shaped:
  "shaped h par t \<Longrightarrow>
   traverse h (top_of t) = Some (map (\<lambda>a. (key (h a), val (h a))) (inorder t))"
proof (induction t arbitrary: par)
  case Tip
  then show ?case by (subst traverse.simps) simp
next
  case (Fork l a r)
  then have "traverse h (left (h a)) = Some (map (\<lambda>a. (key (h a), val (h a))) (inorder l))"
    and "traverse h (right (h a)) = Some (map (\<lambda>a. (key (h a), val (h a))) (inorder r))"
    by auto
  then show ?case by (subst traverse.simps) simp
qed

lemma contents_shape: "tree_shape s t \<Longrightarrow> contents s = Some (items_of s t)"
  using traverse_shaped[of "nodes s" None t]
  by (simp add: tree_shape_def contents_def items_of_def)

lemma child_in_shape:
  assumes "tree_shape s t" "a \<in> set (inorder t)"
  shows "left (nodes s a) = Some b \<Longrightarrow> b \<in> set (inorder t)"
    and "right (nodes s a) = Some b \<Longrightarrow> b \<in> set (inorder t)"
proof -
  obtain c l r where t: "t = plug c (Fork l a r)" using focus_exists[OF assms(2)] by blast
  have sh: "shaped (nodes s) (ctx_top c) (Fork l a r)"
    using tree_shapeD(2)[OF assms(1)] unfolding t shaped_plug by simp
  have io: "inorder t = before c @ inorder l @ a # inorder r @ after c"
    unfolding t inorder_plug by simp
  show "left (nodes s a) = Some b \<Longrightarrow> b \<in> set (inorder t)"
    using sh top_of_mem[of l b] io by simp
  show "right (nodes s a) = Some b \<Longrightarrow> b \<in> set (inorder t)"
    using sh top_of_mem[of r b] io by simp
qed

lemma reachable_in_shape:
  assumes "reachable s a" "tree_shape s t"
  shows "a \<in> set (inorder t)"
  using assms
proof (induction rule: reachable.induct)
  case (at_root s a)
  then show ?case using tree_shapeD(1)[of s t] top_of_mem[of t a] by simp
next
  case (by_left s a b)
  then show ?case using child_in_shape(1)[of s t a b] by simp
next
  case (by_right s a b)
  then show ?case using child_in_shape(2)[of s t a b] by simp
qed

lemma focus_reachable:
  "tree_shape s (plug c (Fork l x r)) \<Longrightarrow> reachable s x"
proof (induction c arbitrary: l x r)
  case Nil
  then show ?case using tree_shape_root[of s l x r] by (auto intro: reachable.at_root)
next
  case (Cons f c)
  have sc: "shaped_ctx (nodes s) (f # c) (Some x)"
    using tree_shapeD(2)[OF Cons.prems] unfolding shaped_plug by simp
  show ?case
  proof (cases f)
    case (InLeft p sib)
    then have "reachable s p" using Cons.IH[of "Fork l x r" p sib] Cons.prems by simp
    moreover have "left (nodes s p) = Some x" using sc InLeft by simp
    ultimately show ?thesis by (rule reachable.by_left)
  next
    case (InRight p sib)
    then have "reachable s p" using Cons.IH[of sib p "Fork l x r"] Cons.prems by simp
    moreover have "right (nodes s p) = Some x" using sc InRight by simp
    ultimately show ?thesis by (rule reachable.by_right)
  qed
qed

lemma reachable_iff_shape:
  assumes "tree_shape s t"
  shows "reachable s a \<longleftrightarrow> a \<in> set (inorder t)"
proof
  assume "reachable s a"
  then show "a \<in> set (inorder t)" using assms by (rule reachable_in_shape)
next
  assume "a \<in> set (inorder t)"
  then obtain c l r where "t = plug c (Fork l a r)" using focus_exists by blast
  then show "reachable s a" using assms focus_reachable by blast
qed


lemma links_reachable:
  assumes "tree_shape s t" "reachable s a"
  shows "parent_ok s a \<and> child_ok s a"
proof -
  have "a \<in> set (inorder t)" using assms by (simp add: reachable_iff_shape)
  then show ?thesis using tree_shape_links[OF assms(1)] by (simp add: list_all_iff)
qed

subsection \<open>The ordering invariant\<close>

text \<open>
  Claim C1. Let a tree be well formed (its links form the shape \<open>t\<close>) and satisfy the
  ordering invariant: at every node, all keys of the left subtree are strictly less and
  all keys of the right subtree strictly greater than the node's key. Then for every key
  and value both \<^verbatim>\<open>insert(key, value)\<close> and \<^verbatim>\<open>search(key)\<close> return, and the tree they leave is
  again well formed, satisfies the ordering invariant at every node, and holds no key
  twice.
\<close>

theorem bst_invariant_preserved:
  assumes "tree_shape s t" and "bst_keys (nodes s) t"
  shows "(\<exists>s' t'. insert_tree k v s = Some (Inr s') \<and> tree_shape s' t' \<and>
            bst_keys (nodes s') t' \<and> distinct (keys_of s' t')) \<and>
         (\<exists>res s' t'. search k s = Some (res, s') \<and> tree_shape s' t' \<and>
            bst_keys (nodes s') t' \<and> distinct (keys_of s' t'))"
proof
  from insert_total[OF assms(1), of k v] obtain s' t' where
    h: "insert_tree k v s = Some (Inr s')" "tree_shape s' t'"
       "bst_keys (nodes s) t \<longrightarrow> bst_keys (nodes s') t'"
    by blast
  then have b: "bst_keys (nodes s') t'" using assms(2) by simp
  then have "distinct (keys_of s' t')" using sorted_lt_distinct by (simp add: keys_of_sorted)
  then show "\<exists>s' t'. insert_tree k v s = Some (Inr s') \<and> tree_shape s' t' \<and>
               bst_keys (nodes s') t' \<and> distinct (keys_of s' t')"
    using h b by blast
next
  from search_total[OF assms(1), of k] obtain res s' t' where
    h: "search k s = Some (res, s')" "tree_shape s' t'" "inorder t' = inorder t"
       "\<forall>b. key (nodes s' b) = key (nodes s b)"
    by blast
  have "bst_keys (nodes s') t' = bst_keys (nodes s) t"
    using h(3,4) by (intro bst_transfer) auto
  then have b: "bst_keys (nodes s') t'" using assms(2) by simp
  then have "distinct (keys_of s' t')" using sorted_lt_distinct by (simp add: keys_of_sorted)
  then show "\<exists>res s' t'. search k s = Some (res, s') \<and> tree_shape s' t' \<and>
               bst_keys (nodes s') t' \<and> distinct (keys_of s' t')"
    using h b by blast
qed

theorem bst_invariant_preserved_witness:
  "tree_shape example_tree example_shape \<and> bst_keys (nodes example_tree) example_shape \<and>
   (\<exists>s' t'. insert_tree 5 7 example_tree = Some (Inr s') \<and> tree_shape s' t' \<and>
      bst_keys (nodes s') t' \<and> distinct (keys_of s' t')) \<and>
   (\<exists>res s' t'. search 5 example_tree = Some (res, s') \<and> tree_shape s' t' \<and>
      bst_keys (nodes s') t' \<and> distinct (keys_of s' t'))"
  using bst_invariant_preserved[OF example_tree_shape example_tree_bst, of 5 7]
    example_tree_shape example_tree_bst
  by simp

subsection \<open>Searching\<close>

text \<open>
  Claim C2. In a well-formed tree that satisfies the ordering invariant, a search for a
  key that the tree holds returns: its result is the node that held the key before the
  call, that node still holds the key, and it is the root of the tree afterwards.
\<close>

theorem search_present_root:
  assumes "tree_shape s t" and "bst_keys (nodes s) t" and "k \<in> set (keys_of s t)"
  shows "\<exists>a s' t'. search k s = Some (Some a, s') \<and> a \<in> set (inorder t) \<and>
           key (nodes s a) = k \<and> key (nodes s' a) = k \<and> root s' = Some a \<and>
           root_key s' = Some k \<and> tree_shape s' t'"
proof -
  from assms(2,3) obtain c l a r where de: "descend (nodes s) k [] t = (c, Fork l a r)"
    using descend_hit_iff by blast
  from search_total[OF assms(1), of k] obtain res s' t' where
    h: "search k s = Some (res, s')" "tree_shape s' t'"
       "\<forall>b. key (nodes s' b) = key (nodes s b)"
       "res = Some a \<and> a \<in> set (inorder t) \<and> key (nodes s a) = k \<and> root s' = Some a"
    using de by auto
  then have "root_key s' = Some k" by (simp add: root_key_def)
  then show ?thesis using h by blast
qed

theorem search_present_root_witness:
  "tree_shape example_tree example_shape \<and> bst_keys (nodes example_tree) example_shape \<and>
   0 \<in> set (keys_of example_tree example_shape) \<and>
   (\<exists>a s' t'. search 0 example_tree = Some (Some a, s') \<and> a \<in> set (inorder example_shape) \<and>
      key (nodes example_tree a) = 0 \<and> key (nodes s' a) = 0 \<and> root s' = Some a \<and>
      root_key s' = Some 0 \<and> tree_shape s' t')"
proof -
  have k: "0 \<in> set (keys_of example_tree example_shape)" by (simp add: example_keys)
  show ?thesis
    using search_present_root[OF example_tree_shape example_tree_bst k]
      example_tree_shape example_tree_bst k
    by simp
qed

text \<open>
  Claim C4. In a well-formed tree, a search for a key that the tree does not hold returns
  normally with the result \<^verbatim>\<open>None\<close>; the type of the result has no place for an exception.
  No node is created. If the tree is not empty, the last node that the walk has visited
  is splayed, and it is the root afterwards; if the tree is empty, it is left as it was.
\<close>

theorem search_absent_not_found:
  assumes "tree_shape s t" and "k \<notin> set (keys_of s t)"
  shows "\<exists>s' t'. search k s = Some (None, s') \<and> tree_shape s' t' \<and>
           inorder t' = inorder t \<and> fresh s' = fresh s \<and>
           (case last_visited (nodes s) k t of
              None \<Rightarrow> t = Tip \<and> root s = None \<and> s' = s
            | Some p \<Rightarrow> t \<noteq> Tip \<and> p \<in> set (inorder t) \<and> splay p s = Some s' \<and>
                root s' = Some p)"
proof -
  have "snd (descend (nodes s) k [] t) = Tip"
    using assms(2) by (intro descend_absent) (simp add: key_in_keys_of)
  then obtain c where de: "descend (nodes s) k [] t = (c, Tip)"
    by (cases "descend (nodes s) k [] t") auto
  from search_total[OF assms(1), of k] obtain res s' t' where
    h: "search k s = Some (res, s')" "tree_shape s' t'" "inorder t' = inorder t"
       "fresh s' = fresh s"
       "res = None \<and> (case ctx_top c of None \<Rightarrow> t = Tip \<and> s' = s
          | Some p \<Rightarrow> p \<in> set (inorder t) \<and> splay p s = Some s' \<and> root s' = Some p)"
    using de by auto
  have lv: "last_visited (nodes s) k t = ctx_top c" using de by (simp add: last_visited_def)
  have "root s = None" if "t = Tip" using tree_shapeD(1)[OF assms(1)] that by simp
  then show ?thesis
    using h lv by (intro exI[of _ s'] exI[of _ t']) (auto split: option.splits)
qed

theorem search_absent_not_found_witness:
  "tree_shape example_tree example_shape \<and> 5 \<notin> set (keys_of example_tree example_shape) \<and>
   (\<exists>s' t'. search 5 example_tree = Some (None, s') \<and> tree_shape s' t' \<and>
      inorder t' = inorder example_shape \<and> fresh s' = fresh example_tree \<and>
      splay 2 example_tree = Some s' \<and> root s' = Some 2) \<and>
   tree_shape empty_tree Tip \<and> search 42 empty_tree = Some (None, empty_tree)"
proof -
  have k: "5 \<notin> set (keys_of example_tree example_shape)" by (simp add: example_keys)
  have lv: "last_visited (nodes example_tree) 5 example_shape = Some 2"
    by (simp add: last_visited_def example_tree_def example_shape_def)
  have e: "42 \<notin> set (keys_of empty_tree Tip)" by (simp add: keys_of_def)
  have le: "last_visited (nodes empty_tree) 42 Tip = None" by (simp add: last_visited_def)
  show ?thesis
    using search_absent_not_found[OF example_tree_shape k]
      search_absent_not_found[OF empty_tree_shape e]
      example_tree_shape empty_tree_shape k
    by (auto simp: lv le)
qed

subsection \<open>Inserting\<close>

text \<open>
  Claim C3. From every well-formed tree that satisfies the ordering invariant, the empty
  tree included, \<^verbatim>\<open>insert(key, value)\<close> returns; afterwards the root holds the key and the
  value, and the tree is well formed and ordered. If the key was present, the value of
  the node that held it is overwritten, that node is splayed, and the tree has the same
  nodes as before: none is allocated. If the key was absent, one new node is allocated;
  in a tree that was not empty it is made a child of the last node visited, and is then
  splayed to the root; in an empty tree it is the root and the only node.
\<close>

theorem insert_tree_correct:
  assumes "tree_shape s t" and "bst_keys (nodes s) t"
  shows "\<exists>s' t' a. insert_tree k v s = Some (Inr s') \<and> tree_shape s' t' \<and>
           bst_keys (nodes s') t' \<and> root s' = Some a \<and> root_key s' = Some k \<and>
           val (nodes s' a) = v \<and>
           (if k \<in> set (keys_of s t)
            then a \<in> set (inorder t) \<and> key (nodes s a) = k \<and>
                 splay a (set_val a v s) = Some s' \<and> inorder t' = inorder t \<and>
                 fresh s' = fresh s
            else a = fresh s \<and> fresh s' = Suc (fresh s) \<and>
                 set (inorder t') = insert a (set (inorder t)) \<and>
                 (case last_visited (nodes s) k t of
                    None \<Rightarrow> t = Tip \<and> t' = Fork Tip a Tip
                  | Some p \<Rightarrow>
                      p \<in> set (inorder t) \<and>
                      parent (nodes (attach k v p s) a) = Some p \<and>
                      (left (nodes (attach k v p s) p) = Some a \<or>
                       right (nodes (attach k v p s) p) = Some a) \<and>
                      splay a (attach k v p s) = Some s'))"
proof -
  from insert_total[OF assms(1), of k v] obtain s' t' a where
    h: "insert_tree k v s = Some (Inr s')" "tree_shape s' t'" "root s' = Some a"
       "key (nodes s' a) = k" "val (nodes s' a) = v"
       "bst_keys (nodes s) t \<longrightarrow> bst_keys (nodes s') t'"
    and cs: "(case descend (nodes s) k [] t of
        (c, Fork l x r) \<Rightarrow>
          a = x \<and> a \<in> set (inorder t) \<and> key (nodes s a) = k \<and>
          splay a (set_val a v s) = Some s' \<and> inorder t' = inorder t \<and> fresh s' = fresh s
      | (c, Tip) \<Rightarrow>
          a = fresh s \<and> fresh s' = Suc (fresh s) \<and> a \<notin> set (inorder t) \<and>
          set (inorder t') = insert a (set (inorder t)) \<and>
          length (inorder t') = Suc (length (inorder t)) \<and>
          (case ctx_top c of
             None \<Rightarrow> t = Tip \<and> t' = Fork Tip a Tip
           | Some p \<Rightarrow>
               p \<in> set (inorder t) \<and> splay a (attach k v p s) = Some s' \<and>
               parent (nodes (attach k v p s) a) = Some p \<and>
               (left (nodes (attach k v p s) p) = Some a \<or>
                right (nodes (attach k v p s) p) = Some a)))"
    by (elim exE conjE) (rule that, assumption+)
  have rk: "root_key s' = Some k" using h(3,4) by (simp add: root_key_def)
  have b: "bst_keys (nodes s') t'" using h(6) assms(2) by simp
  obtain c u where de: "descend (nodes s) k [] t = (c, u)"
    by (cases "descend (nodes s) k [] t") auto
  have lv: "last_visited (nodes s) k t = ctx_top c" using de by (simp add: last_visited_def)
  show ?thesis
  proof (cases u)
    case Tip
    then have "k \<notin> set (keys_of s t)" using descend_hit_iff[OF assms(2), of k] de by simp
    then show ?thesis
      using h(1,2,3,5) rk b cs de Tip lv
      by (intro exI[of _ s'] exI[of _ t'] exI[of _ a]) (auto split: option.splits)
  next
    case (Fork l x r)
    then have "k \<in> set (keys_of s t)" using descend_hit_iff[OF assms(2), of k] de by simp
    then show ?thesis
      using h(1,2,3,5) rk b cs de Fork
      by (intro exI[of _ s'] exI[of _ t'] exI[of _ a]) auto
  qed
qed

theorem insert_tree_correct_witness:
  "tree_shape example_tree example_shape \<and> bst_keys (nodes example_tree) example_shape \<and>
   (\<exists>s' t'. insert_tree 1 9 example_tree = Some (Inr s') \<and> tree_shape s' t' \<and>
      bst_keys (nodes s') t' \<and> root s' = Some 1 \<and> root_key s' = Some 1 \<and>
      val (nodes s' 1) = 9 \<and> splay 1 (set_val 1 9 example_tree) = Some s' \<and>
      inorder t' = inorder example_shape \<and> fresh s' = 4) \<and>
   (\<exists>s' t'. insert_tree 5 7 example_tree = Some (Inr s') \<and> tree_shape s' t' \<and>
      bst_keys (nodes s') t' \<and> root s' = Some 4 \<and> root_key s' = Some 5 \<and>
      val (nodes s' 4) = 7 \<and> fresh s' = 5 \<and>
      set (inorder t') = insert 4 (set (inorder example_shape)) \<and>
      splay 4 (attach 5 7 2 example_tree) = Some s') \<and>
   tree_shape empty_tree Tip \<and> bst_keys (nodes empty_tree) Tip \<and>
   (\<exists>s'. insert_tree 5 7 empty_tree = Some (Inr s') \<and> tree_shape s' (Fork Tip 0 Tip) \<and>
      root s' = Some 0 \<and> root_key s' = Some 5 \<and> val (nodes s' 0) = 7)"
proof -
  have k1: "1 \<in> set (keys_of example_tree example_shape)"
    and k5: "5 \<notin> set (keys_of example_tree example_shape)"
    by (simp_all add: example_keys)
  have lv: "last_visited (nodes example_tree) 5 example_shape = Some 2"
    by (simp add: last_visited_def example_tree_def example_shape_def)
  have fr: "fresh example_tree = 4" by (simp add: example_tree_def)
  have e: "5 \<notin> set (keys_of empty_tree Tip)" "fresh empty_tree = 0"
    "last_visited (nodes empty_tree) 5 Tip = None" "bst_keys (nodes empty_tree) Tip"
    by (simp_all add: keys_of_def empty_tree_def last_visited_def)
  have A: "\<exists>s' t'. insert_tree 1 9 example_tree = Some (Inr s') \<and> tree_shape s' t' \<and>
      bst_keys (nodes s') t' \<and> root s' = Some 1 \<and> root_key s' = Some 1 \<and>
      val (nodes s' 1) = 9 \<and> splay 1 (set_val 1 9 example_tree) = Some s' \<and>
      inorder t' = inorder example_shape \<and> fresh s' = 4"
  proof -
    from insert_tree_correct[OF example_tree_shape example_tree_bst, of 1 9]
    obtain s' t' a where
      h: "insert_tree 1 9 example_tree = Some (Inr s')" "tree_shape s' t'"
         "bst_keys (nodes s') t'" "root s' = Some a" "root_key s' = Some 1"
         "val (nodes s' a) = 9" "a \<in> set (inorder example_shape)"
         "key (nodes example_tree a) = 1" "splay a (set_val a 9 example_tree) = Some s'"
         "inorder t' = inorder example_shape" "fresh s' = fresh example_tree"
      using k1 by auto
    have "a = 1" using h(7,8) by (auto simp: example_tree_def example_shape_def)
    then show ?thesis using h fr by (intro exI[of _ s'] exI[of _ t']) simp
  qed
  have B: "\<exists>s' t'. insert_tree 5 7 example_tree = Some (Inr s') \<and> tree_shape s' t' \<and>
      bst_keys (nodes s') t' \<and> root s' = Some 4 \<and> root_key s' = Some 5 \<and>
      val (nodes s' 4) = 7 \<and> fresh s' = 5 \<and>
      set (inorder t') = insert 4 (set (inorder example_shape)) \<and>
      splay 4 (attach 5 7 2 example_tree) = Some s'"
    using insert_tree_correct[OF example_tree_shape example_tree_bst, of 5 7] k5 lv fr
    by auto
  have C: "\<exists>s'. insert_tree 5 7 empty_tree = Some (Inr s') \<and> tree_shape s' (Fork Tip 0 Tip) \<and>
      root s' = Some 0 \<and> root_key s' = Some 5 \<and> val (nodes s' 0) = 7"
    using insert_tree_correct[OF empty_tree_shape e(4), of 5 7] e(1,2,3)
    by auto
  show ?thesis using A B C example_tree_shape example_tree_bst empty_tree_shape e(4) by blast
qed

text \<open>
  Claim C7. From every well-formed tree that satisfies the ordering invariant, inserting
  a key with a value \<open>v1\<close> and then the same key with a value \<open>v2\<close> returns both times;
  afterwards exactly one node holds the key, its value is \<open>v2\<close>, and the tree has as many
  nodes as after the first insertion.
\<close>

theorem insert_twice:
  assumes "tree_shape s t" and "bst_keys (nodes s) t"
  shows "\<exists>s1 t1 s2 t2. insert_tree k v1 s = Some (Inr s1) \<and> tree_shape s1 t1 \<and>
           insert_tree k v2 s1 = Some (Inr s2) \<and> tree_shape s2 t2 \<and>
           length (inorder t2) = length (inorder t1) \<and>
           filter (\<lambda>p. fst p = k) (items_of s2 t2) = [(k, v2)]"
proof -
  from insert_total[OF assms(1), of k v1] obtain s1 t1 a1 where
    h1: "insert_tree k v1 s = Some (Inr s1)" "tree_shape s1 t1" "root s1 = Some a1"
        "key (nodes s1 a1) = k" "bst_keys (nodes s) t \<longrightarrow> bst_keys (nodes s1) t1"
    by blast
  have b1: "bst_keys (nodes s1) t1" using h1(5) assms(2) by simp
  have "a1 \<in> set (inorder t1)" using tree_shapeD(1)[OF h1(2)] h1(3) top_of_mem[of t1 a1] by simp
  then have k1: "k \<in> set (keys_of s1 t1)" using h1(4) by (auto simp: key_in_keys_of)
  then obtain c l x r where de: "descend (nodes s1) k [] t1 = (c, Fork l x r)"
    using descend_hit_iff[OF b1] by blast
  from insert_total[OF h1(2), of k v2] obtain s2 t2 a2 where
    h2: "insert_tree k v2 s1 = Some (Inr s2)" "tree_shape s2 t2" "root s2 = Some a2"
        "key (nodes s2 a2) = k" "val (nodes s2 a2) = v2"
        "bst_keys (nodes s1) t1 \<longrightarrow> bst_keys (nodes s2) t2"
        "inorder t2 = inorder t1"
    using de by auto
  have b2: "bst_keys (nodes s2) t2" using h2(6) b1 by simp
  have a2: "a2 \<in> set (inorder t2)"
    using tree_shapeD(1)[OF h2(2)] h2(3) top_of_mem[of t2 a2] by simp
  have d: "distinct (map fst (items_of s2 t2))"
    using b2 sorted_lt_distinct[of "keys_of s2 t2"]
    by (simp add: keys_of_sorted keys_of_def items_of_def comp_def)
  have "(k, v2) \<in> set (items_of s2 t2)" using a2 h2(4,5) by (force simp: items_of_def)
  then have "filter (\<lambda>p. fst p = k) (items_of s2 t2) = [(k, v2)]"
    using d by (rule filter_key_single)
  then show ?thesis using h1(1,2) h2(1,2,7) by (metis)
qed

theorem insert_twice_witness:
  "tree_shape example_tree example_shape \<and> bst_keys (nodes example_tree) example_shape \<and>
   (\<exists>s1 t1 s2 t2. insert_tree 5 7 example_tree = Some (Inr s1) \<and> tree_shape s1 t1 \<and>
      insert_tree 5 8 s1 = Some (Inr s2) \<and> tree_shape s2 t2 \<and>
      length (inorder t2) = length (inorder t1) \<and>
      filter (\<lambda>p. fst p = 5) (items_of s2 t2) = [(5, 8)])"
  using insert_twice[OF example_tree_shape example_tree_bst, of 5 7 8]
    example_tree_shape example_tree_bst
  by simp

subsection \<open>Splaying and the parent links\<close>

text \<open>
  Claim C5. For every node \<open>x\<close> of a well-formed tree the loop of \<^verbatim>\<open>_splay\<close> ends. The
  depth \<open>d\<close> of \<open>x\<close>, the number of parent links above it, is defined; one round of the
  loop leaves a well-formed tree in which the depth of \<open>x\<close> is 0 if it was 1 (zig) and
  \<open>d - 2\<close> if it was at least 2 (zig-zig, zig-zag); and the loop returns after at most
  \<open>d\<close> rounds, with \<open>x\<close> as root and without a parent.
\<close>

theorem splay_terminates:
  assumes "tree_shape s t" and "x \<in> set (inorder t)"
  shows "\<exists>d. depth (nodes s) x = Some d \<and>
           (\<exists>t1. tree_shape (splay_step x s) t1 \<and> x \<in> set (inorder t1) \<and>
              depth (nodes (splay_step x s)) x = Some (if d = 1 then 0 else d - 2)) \<and>
           (\<exists>n t'. n \<le> d \<and> splay x s = Some ((splay_step x ^^ n) s) \<and>
              tree_shape ((splay_step x ^^ n) s) t' \<and>
              root ((splay_step x ^^ n) s) = Some x \<and>
              parent (nodes ((splay_step x ^^ n) s) x) = None)"
proof -
  obtain c l r where t: "t = plug c (Fork l x r)" using focus_exists[OF assms(2)] by blast
  have ts: "tree_shape s (plug c (Fork l x r))" using assms(1) t by simp
  have d: "depth (nodes s) x = Some (length c)" by (rule depth_shape[OF ts])
  have step: "\<exists>t1. tree_shape (splay_step x s) t1 \<and> x \<in> set (inorder t1) \<and>
      depth (nodes (splay_step x s)) x = Some (if length c = 1 then 0 else length c - 2)"
  proof (cases "c = []")
    case True
    then have "parent (nodes s x) = None" using shape_focus[OF ts] by simp
    then have "splay_step x s = s" by (simp add: splay_step_def)
    then show ?thesis using assms d True by auto
  next
    case False
    let ?c1 = "fst (step_shape c (Fork l x r))"
    obtain l1 r1 where s1: "tree_shape (splay_step x s) (plug ?c1 (Fork l1 x r1))"
      using splay_step_shape[OF ts False] by blast
    have "depth (nodes (splay_step x s)) x = Some (length ?c1)" by (rule depth_shape[OF s1])
    moreover have "length ?c1 = (if length c = 1 then 0 else length c - 2)"
      by (simp add: length_step_shape)
    moreover have "x \<in> set (inorder (plug ?c1 (Fork l1 x r1)))" by (simp add: inorder_plug)
    ultimately show ?thesis using s1 by (intro exI[of _ "plug ?c1 (Fork l1 x r1)"]) simp
  qed
  from splay_shape[OF ts] obtain n l' r' where
    n: "n \<le> length c" "splay x s = Some ((splay_step x ^^ n) s)"
       "tree_shape ((splay_step x ^^ n) s) (Fork l' x r')"
    by blast
  have "parent (nodes ((splay_step x ^^ n) s) x) = None"
    using shape_focus[of "(splay_step x ^^ n) s" "[]" l' x r'] n(3) by simp
  then have fin: "\<exists>n t'. n \<le> length c \<and> splay x s = Some ((splay_step x ^^ n) s) \<and>
      tree_shape ((splay_step x ^^ n) s) t' \<and> root ((splay_step x ^^ n) s) = Some x \<and>
      parent (nodes ((splay_step x ^^ n) s) x) = None"
    using n tree_shape_root[OF n(3)] by blast
  show ?thesis using d step fin by (intro exI[of _ "length c"]) simp
qed

theorem splay_terminates_witness:
  "tree_shape example_tree example_shape \<and> 0 \<in> set (inorder example_shape) \<and>
   depth (nodes example_tree) 0 = Some 2 \<and>
   (\<exists>t1. tree_shape (splay_step 0 example_tree) t1 \<and> 0 \<in> set (inorder t1) \<and>
      depth (nodes (splay_step 0 example_tree)) 0 = Some 0) \<and>
   (\<exists>n t'. n \<le> 2 \<and> splay 0 example_tree = Some ((splay_step 0 ^^ n) example_tree) \<and>
      tree_shape ((splay_step 0 ^^ n) example_tree) t' \<and>
      root ((splay_step 0 ^^ n) example_tree) = Some 0 \<and>
      parent (nodes ((splay_step 0 ^^ n) example_tree) 0) = None)"
proof -
  have m: "0 \<in> set (inorder example_shape)" by (simp add: example_shape_def)
  show ?thesis
    using splay_terminates[OF example_tree_shape m] example_tree_shape m depth_example
    by auto
qed

text \<open>
  Claim C6. In a well-formed tree, a rotation of any node of the tree leaves a well-formed
  tree with the same nodes, and so do \<^verbatim>\<open>insert\<close> and \<^verbatim>\<open>search\<close>, which return. In the tree
  left, for every node that can be reached from the root: the root has no parent, any
  other node is the left or the right child of its parent and not both, and every child
  of the node has the node as its parent.
\<close>

theorem parent_consistency:
  assumes "tree_shape s t"
  shows "(\<forall>x. reachable s x \<longrightarrow>
            (\<exists>t'. tree_shape (rotate_node x s) t' \<and> inorder t' = inorder t \<and>
               (\<forall>a. reachable (rotate_node x s) a \<longrightarrow>
                  parent_ok (rotate_node x s) a \<and> child_ok (rotate_node x s) a))) \<and>
         (\<exists>s' t'. insert_tree k v s = Some (Inr s') \<and> tree_shape s' t' \<and>
            (\<forall>a. reachable s' a \<longrightarrow> parent_ok s' a \<and> child_ok s' a)) \<and>
         (\<exists>res s' t'. search k s = Some (res, s') \<and> tree_shape s' t' \<and>
            (\<forall>a. reachable s' a \<longrightarrow> parent_ok s' a \<and> child_ok s' a))"
proof (intro conjI allI impI)
  fix x assume "reachable s x"
  then have "x \<in> set (inorder t)" using assms by (simp add: reachable_iff_shape)
  from rotate_total[OF assms this] obtain t' where
    "tree_shape (rotate_node x s) t'" "inorder t' = inorder t" by blast
  then show "\<exists>t'. tree_shape (rotate_node x s) t' \<and> inorder t' = inorder t \<and>
      (\<forall>a. reachable (rotate_node x s) a \<longrightarrow>
         parent_ok (rotate_node x s) a \<and> child_ok (rotate_node x s) a)"
    using links_reachable by blast
next
  from insert_total[OF assms, of k v] obtain s' t' where
    "insert_tree k v s = Some (Inr s')" "tree_shape s' t'" by blast
  then show "\<exists>s' t'. insert_tree k v s = Some (Inr s') \<and> tree_shape s' t' \<and>
      (\<forall>a. reachable s' a \<longrightarrow> parent_ok s' a \<and> child_ok s' a)"
    using links_reachable by blast
next
  from search_total[OF assms, of k] obtain res s' t' where
    "search k s = Some (res, s')" "tree_shape s' t'" by blast
  then show "\<exists>res s' t'. search k s = Some (res, s') \<and> tree_shape s' t' \<and>
      (\<forall>a. reachable s' a \<longrightarrow> parent_ok s' a \<and> child_ok s' a)"
    using links_reachable by blast
qed

theorem parent_consistency_witness:
  "tree_shape example_tree example_shape \<and> reachable example_tree 0 \<and>
   (\<exists>t'. tree_shape (rotate_node 0 example_tree) t' \<and> inorder t' = inorder example_shape \<and>
      (\<forall>a. reachable (rotate_node 0 example_tree) a \<longrightarrow>
         parent_ok (rotate_node 0 example_tree) a \<and> child_ok (rotate_node 0 example_tree) a)) \<and>
   (\<exists>s' t'. insert_tree 5 7 example_tree = Some (Inr s') \<and> tree_shape s' t' \<and>
      (\<forall>a. reachable s' a \<longrightarrow> parent_ok s' a \<and> child_ok s' a)) \<and>
   (\<exists>res s' t'. search 5 example_tree = Some (res, s') \<and> tree_shape s' t' \<and>
      (\<forall>a. reachable s' a \<longrightarrow> parent_ok s' a \<and> child_ok s' a))"
proof -
  have "0 \<in> set (inorder example_shape)" by (simp add: example_shape_def)
  then have m: "reachable example_tree 0"
    using example_tree_shape by (simp add: reachable_iff_shape)
  show ?thesis
    using parent_consistency[OF example_tree_shape, of 5 7] example_tree_shape m
    by blast
qed

subsection \<open>The two scenarios\<close>

text \<open>
  Claim C8. A tree as \<^verbatim>\<open>SplayTree()\<close> builds it holds the keys 0 and 1 with the values 0
  and 1. Evaluating \<^verbatim>\<open>fibonacci_splay(5, tree)\<close> on it returns 5 and leaves the values
  0, 1, 1, 2, 3, 5 stored under the keys 0 to 5; a search for 5 afterwards returns a node
  whose value is 5, and that node, with key 5, is the root.
\<close>

theorem fibonacci_splay_5:
  "(case SplayTree_init of
      Some (Inr s0) \<Rightarrow>
        contents s0 = Some [(0, 0), (1, 1)] \<and>
        (case fibonacci_splay 5 s0 of
           Some (Inr (v, s1)) \<Rightarrow>
             v = 5 \<and>
             contents s1 = Some [(0, 0), (1, 1), (2, 1), (3, 2), (4, 3), (5, 5)] \<and>
             (case search 5 s1 of
                Some (Some a, s2) \<Rightarrow>
                  val (nodes s2 a) = 5 \<and> root s2 = Some a \<and> root_key s2 = Some 5
              | _ \<Rightarrow> False)
         | _ \<Rightarrow> False)
    | _ \<Rightarrow> False)"
  by code_simp

text \<open>
  Claim C9, as stated: after the keys 3, 1, 2 have been inserted into a newly constructed
  tree, the root key is 2 and the in-order traversal yields the keys 1, 2, 3. This fails
  on the code, because the constructor has inserted the keys 0 and 1 before.
\<close>

theorem insert_3_1_2_counterexample:
  "\<not> (root_key (result_tree
          (then_insert 2 2 (then_insert 1 1 (then_insert 3 3 SplayTree_init)))) = Some 2 \<and>
      map_option (map fst) (contents (result_tree
          (then_insert 2 2 (then_insert 1 1 (then_insert 3 3 SplayTree_init))))) = Some [1, 2, 3])"
  by code_simp

text \<open>
  Claim C9, amended: after the keys 3, 1, 2 have been inserted in that order, with any
  values, into a newly constructed tree, the three calls have returned, the root key is 2
  and the in-order traversal yields exactly the keys 0, 1, 2, 3: the constructor has
  inserted the keys 0 and 1 with the values 0 and 1 before.
\<close>

theorem insert_3_1_2:
  "root_key (result_tree
     (then_insert 2 c (then_insert 1 b (then_insert 3 a SplayTree_init)))) = Some 2 \<and>
   map_option (map fst) (contents (result_tree
     (then_insert 2 c (then_insert 1 b (then_insert 3 a SplayTree_init)))))
     = Some [0, 1, 2, 3] \<and>
   contents (result_tree
     (then_insert 2 c (then_insert 1 b (then_insert 3 a SplayTree_init))))
     = Some [(0, 0), (1, b), (2, c), (3, a)]"
  by code_simp

text \<open>
  The keys 1, 2, 3 alone are what the same three calls leave in a tree that had no root,
  a state that the constructor passes through before it inserts 0 and 1.
\<close>

lemma insert_3_1_2_rootless:
  "root_key (result_tree
     (then_insert 2 c (then_insert 1 b (then_insert 3 a (Some (Inr empty_tree)))))) = Some 2 \<and>
   contents (result_tree
     (then_insert 2 c (then_insert 1 b (then_insert 3 a (Some (Inr empty_tree))))))
     = Some [(1, b), (2, c), (3, a)]"
  by code_simp

subsection \<open>The cached range sum\<close>


lemma map_of_entry_ok:
  "list_all (entry_ok xs) c \<Longrightarrow> map_of c (i, L, R) = Some v \<Longrightarrow>
   v = sum_list (py_slice xs L (R + 1))"
proof -
  assume a: "list_all (entry_ok xs) c" and m: "map_of c (i, L, R) = Some v"
  from m have "((i, L, R), v) \<in> set c" by (rule map_of_SomeD)
  then have "entry_ok xs ((i, L, R), v)" using a by (simp add: list_all_iff)
  then show ?thesis by (simp add: entry_ok_def)
qed

lemma list_all_take: "list_all P xs \<Longrightarrow> list_all P (take n xs)"
  by (auto simp: list_all_iff dest: in_set_takeD)

lemma cached_sum_global:
  assumes g: "array_var st = Some g"
    and c: "coherent st \<or> map_of (cache st) (a, L, R) = None"
  shows "fst (cached_sum a L R st) = Inr (sum_list (py_slice (list_store st g) L (R + 1)))"
    and "list_store (snd (cached_sum a L R st)) = list_store st"
    and "array_var (snd (cached_sum a L R st)) = Some g"
    and "coherent st \<Longrightarrow> coherent (snd (cached_sum a L R st))"
proof -
  let ?v = "sum_list (py_slice (list_store st g) L (R + 1))"
  show "list_store (snd (cached_sum a L R st)) = list_store st"
    using g by (simp add: cached_sum_def Let_def split: option.splits)
  show "array_var (snd (cached_sum a L R st)) = Some g"
    using g by (simp add: cached_sum_def Let_def split: option.splits)
  show "fst (cached_sum a L R st) = Inr ?v"
  proof (cases "map_of (cache st) (a, L, R)")
    case None
    then show ?thesis using g by (simp add: cached_sum_def Let_def)
  next
    case (Some v)
    then have "coherent st" using c by simp
    then have "list_all (entry_ok (list_store st g)) (cache st)" using g by (simp add: coherent_def)
    then have "v = ?v" using Some by (rule map_of_entry_ok)
    then show ?thesis using Some by (simp add: cached_sum_def)
  qed
  show "coherent (snd (cached_sum a L R st))" if co: "coherent st"
  proof -
    have la: "list_all (entry_ok (list_store st g)) (cache st)" using co g by (simp add: coherent_def)
    show ?thesis
    proof (cases "map_of (cache st) (a, L, R)")
      case None
      have "entry_ok (list_store st g) ((a, L, R), ?v)" by (simp add: entry_ok_def)
      then have "list_all (entry_ok (list_store st g)) (take 1000 (((a, L, R), ?v) # cache st))"
        using la by (intro list_all_take) simp
      then show ?thesis using None g by (simp add: cached_sum_def coherent_def Let_def)
    next
      case (Some v)
      then have "v = ?v" using la by (intro map_of_entry_ok)
      then have "entry_ok (list_store st g) ((a, L, R), v)" by (simp add: entry_ok_def)
      moreover have "list_all (entry_ok (list_store st g))
          (filter (\<lambda>e. fst e \<noteq> (a, L, R)) (cache st))"
        using la by (simp add: list_all_iff)
      ultimately show ?thesis using Some g by (simp add: cached_sum_def coherent_def)
    qed
  qed
qed

lemma example_module_coherent: "coherent example_module"
  by (simp add: example_module_def coherent_def)

lemma stale_module_eq:
  "stale_module =
     \<lparr>array_var = Some 0,
      list_store = (list_store example_module)(0 := [100, 2, 3]),
      cache = [((0, 0, 1), 3)]\<rparr>"
  by (simp add: stale_module_def update_no_cache_def range_sum_with_cache_def cached_sum_def
      example_module_def py_setitem_def py_slice_def Let_def)

text \<open>
  Claim C10, as stated: for every list \<open>a\<close> and indices \<open>L\<close>, \<open>R\<close> the result of
  \<^verbatim>\<open>range_sum_with_cache(a, L, R)\<close> is the sum of the slice of the global list. This fails
  where the cache answers: after a call for the range 0 to 1 of the global list [1, 2, 3]
  and \<^verbatim>\<open>update_no_cache(array, 0, 100)\<close>, the same call on the global list itself returns
  the stored 3, while the slice of the global list now sums to 102.
\<close>

theorem range_sum_with_cache_stale_counterexample:
  "array_var stale_module = Some 0 \<and>
   list_store stale_module 0 = [100, 2, 3] \<and>
   range_sum_no_cache 0 0 1 stale_module = 102 \<and>
   fst (range_sum_with_cache 0 0 1 stale_module) = Inr 3 \<and>
   fst (range_sum_with_cache 0 0 1 stale_module) \<noteq> Inr (range_sum_no_cache 0 0 1 stale_module)"
  by (simp add: stale_module_eq range_sum_with_cache_def cached_sum_def range_sum_no_cache_def
      py_slice_def)

text \<open>
  Claim C10, amended. Let the global name \<^verbatim>\<open>array\<close> be bound to a list \<open>g\<close>. Then
  \<^verbatim>\<open>range_sum_with_cache(a, L, R)\<close> returns the result that the cache holds for the key
  \<^verbatim>\<open>(id(a), L, R)\<close> if it holds one, and otherwise the sum of the slice \<^verbatim>\<open>[L:R+1]\<close> of \<open>g\<close>.
  So where the cache holds no entry for the call, or every result in the cache is still
  the sum of its range in \<open>g\<close>, the call returns the sum over the slice of \<open>g\<close>, whatever
  list \<open>a\<close> is: the result is \<^verbatim>\<open>sum(a[L:R+1])\<close> when \<open>a\<close> is \<open>g\<close> itself, and for any
  other list it does not change when the elements of \<open>a\<close> do. The call leaves the lists
  and the binding as they were and a coherent cache coherent.
\<close>

theorem range_sum_with_cache_reads_global:
  assumes "array_var st = Some g"
  shows "fst (range_sum_with_cache a L R st) =
           Inr (case map_of (cache st) (a, L, R) of
                  Some v \<Rightarrow> v
                | None \<Rightarrow> range_sum_no_cache g L R st) \<and>
         list_store (snd (range_sum_with_cache a L R st)) = list_store st \<and>
         array_var (snd (range_sum_with_cache a L R st)) = Some g \<and>
         (coherent st \<or> map_of (cache st) (a, L, R) = None \<longrightarrow>
            fst (range_sum_with_cache a L R st) = Inr (range_sum_no_cache g L R st) \<and>
            (a = g \<longrightarrow>
               fst (range_sum_with_cache a L R st) = Inr (range_sum_no_cache a L R st)) \<and>
            (a \<noteq> g \<longrightarrow>
               (\<forall>xs. fst (range_sum_with_cache a L R
                             (st\<lparr>list_store := (list_store st)(a := xs)\<rparr>))
                     = fst (range_sum_with_cache a L R st))) \<and>
            (coherent st \<longrightarrow> coherent (snd (range_sum_with_cache a L R st))))"
proof -
  have 0: "fst (range_sum_with_cache a L R st) =
      Inr (case map_of (cache st) (a, L, R) of
             Some v \<Rightarrow> v
           | None \<Rightarrow> range_sum_no_cache g L R st)"
    using assms
    by (simp add: range_sum_with_cache_def cached_sum_def range_sum_no_cache_def Let_def
        split: option.splits)
  have l: "list_store (snd (range_sum_with_cache a L R st)) = list_store st"
    and b: "array_var (snd (range_sum_with_cache a L R st)) = Some g"
    using assms
    by (simp_all add: range_sum_with_cache_def cached_sum_def Let_def split: option.splits)
  have rest: "fst (range_sum_with_cache a L R st) = Inr (range_sum_no_cache g L R st) \<and>
      (a = g \<longrightarrow> fst (range_sum_with_cache a L R st) = Inr (range_sum_no_cache a L R st)) \<and>
      (a \<noteq> g \<longrightarrow>
         (\<forall>xs. fst (range_sum_with_cache a L R
                       (st\<lparr>list_store := (list_store st)(a := xs)\<rparr>))
               = fst (range_sum_with_cache a L R st))) \<and>
      (coherent st \<longrightarrow> coherent (snd (range_sum_with_cache a L R st)))"
    if c: "coherent st \<or> map_of (cache st) (a, L, R) = None"
  proof -
    note cs = cached_sum_global[OF assms c]
    have 1: "fst (range_sum_with_cache a L R st) = Inr (range_sum_no_cache g L R st)"
      using cs(1) by (simp add: range_sum_with_cache_def range_sum_no_cache_def)
    have 2: "fst (range_sum_with_cache a L R st) = Inr (range_sum_no_cache a L R st)"
      if "a = g" using 1 that by simp
    have 3: "fst (range_sum_with_cache a L R (st\<lparr>list_store := (list_store st)(a := xs)\<rparr>))
        = fst (range_sum_with_cache a L R st)" if ne: "a \<noteq> g" for xs
    proof -
      let ?st = "st\<lparr>list_store := (list_store st)(a := xs)\<rparr>"
      have g': "array_var ?st = Some g" using assms by simp
      have lg: "list_store ?st g = list_store st g" using ne by simp
      have c': "coherent ?st \<or> map_of (cache ?st) (a, L, R) = None"
        using assms c lg by (auto simp: coherent_def)
      show ?thesis
        using cached_sum_global(1)[OF g' c'] cs(1) lg by (simp add: range_sum_with_cache_def)
    qed
    show ?thesis using 1 2 3 cs(4) by (simp add: range_sum_with_cache_def)
  qed
  show ?thesis using 0 l b rest by blast
qed

theorem range_sum_with_cache_reads_global_witness:
  "array_var example_module = Some 0 \<and> coherent example_module \<and>
   fst (range_sum_with_cache 1 0 1 example_module) = Inr 3 \<and>
   range_sum_no_cache 0 0 1 example_module = 3 \<and>
   range_sum_no_cache 1 0 1 example_module = 30 \<and>
   fst (range_sum_with_cache 0 0 1 example_module) = Inr 3 \<and>
   array_var stale_module = Some 0 \<and>
   map_of (cache stale_module) (0, 0, 1) = Some 3 \<and>
   fst (range_sum_with_cache 0 0 1 stale_module) = Inr 3"
proof -
  have g: "array_var example_module = Some 0" by (simp add: example_module_def)
  have m: "map_of (cache example_module) (1, 0, 1) = None"
    "map_of (cache example_module) (0, 0, 1) = None"
    by (simp_all add: example_module_def)
  have v: "range_sum_no_cache 0 0 1 example_module = 3"
    "range_sum_no_cache 1 0 1 example_module = 30"
    by (simp_all add: range_sum_no_cache_def example_module_def py_slice_def)
  have sg: "array_var stale_module = Some 0"
    and sm: "map_of (cache stale_module) (0, 0, 1) = Some 3"
    by (simp_all add: stale_module_eq)
  show ?thesis
    using range_sum_with_cache_reads_global[OF g, of 1 0 1]
      range_sum_with_cache_reads_global[OF g, of 0 0 1]
      range_sum_with_cache_reads_global[OF sg, of 0 0 1]
      g example_module_coherent v m sg sm
    by simp
qed

end
